theory Spec2Isabelle
  imports Complex_Main
begin

section \<open>Tensors and the library layers the networks are built from\<close>

text \<open>
  The networks of \<^verbatim>\<open>model.py\<close> are built from PyTorch layers. A tensor of one batch
  element is a list of rows of reals: channel-first \<open>(channels, length)\<close> inside the
  convolution stack, position-first \<open>(length, features)\<close> around it. Every layer of the
  generative model acts on each batch element on its own, so a batch is a list of such
  tensors. Reals stand for the floating-point numbers of the program. A Python exception
  is a value \<open>Inl e\<close> of the result type.
\<close>

datatype error = RuntimeError | IndexError | ValueError | ZeroDivisionError | OracleError

definition bindE :: "error + 'a \<Rightarrow> ('a \<Rightarrow> error + 'b) \<Rightarrow> error + 'b" where
  "bindE m f = (case m of Inl e \<Rightarrow> Inl e | Inr v \<Rightarrow> f v)"

fun mapE :: "('a \<Rightarrow> error + 'b) \<Rightarrow> 'a list \<Rightarrow> error + 'b list" where
  "mapE f [] = Inr []"
| "mapE f (x # xs) = bindE (f x) (\<lambda>y. bindE (mapE f xs) (\<lambda>ys. Inr (y # ys)))"

text \<open>The size of the last dimension of a two-dimensional tensor.\<close>

definition width :: "'a list list \<Rightarrow> nat" where
  "width x = (case x of [] \<Rightarrow> 0 | r # _ \<Rightarrow> length r)"

text \<open>\<open>rect x c l\<close>: the tensor \<open>x\<close> has shape \<open>(c, l)\<close>.\<close>

definition rect :: "'a list list \<Rightarrow> nat \<Rightarrow> nat \<Rightarrow> bool" where
  "rect x c l = (length x = c \<and> list_all (\<lambda>r. length r = l) x)"

subsection \<open>torch.nn.Conv1d\<close>

text \<open>
  A one-dimensional convolution: \<open>padding\<close> zeros are put on both sides of every input
  row, and output position \<open>t\<close> of output channel \<open>o\<close> is the bias plus the sum over the
  input channels \<open>i\<close> and the kernel taps \<open>j\<close> of
  \<open>weight[o][i][j] * padded[i][t * stride + j * dilation]\<close>. The weight has shape
  \<open>(out_channels, in_channels, kernel_size)\<close> and is the one the forward pass uses (for a
  weight-normalised layer, the weight recomputed from its direction and magnitude
  parameters). An input with the wrong number of channels, or shorter after padding than
  the dilated kernel, raises RuntimeError.
\<close>

record Conv1d =
  in_channels :: nat
  out_channels :: nat
  kernel_size :: nat
  conv_stride :: nat
  conv_padding :: nat
  conv_dilation :: nat
  conv_weight :: "real list list list"
  conv_bias :: "real list"

definition pad :: "nat \<Rightarrow> real list \<Rightarrow> real list" where
  "pad p r = replicate p 0 @ r @ replicate p 0"

definition conv_out :: "Conv1d \<Rightarrow> real list list \<Rightarrow> nat \<Rightarrow> nat \<Rightarrow> real" where
  "conv_out cv x oc t =
     conv_bias cv ! oc +
     (\<Sum>i\<leftarrow>[0..<in_channels cv]. \<Sum>j\<leftarrow>[0..<kernel_size cv].
        conv_weight cv ! oc ! i ! j *
        pad (conv_padding cv) (x ! i) ! (t * conv_stride cv + j * conv_dilation cv))"

definition Conv1d_forward :: "Conv1d \<Rightarrow> real list list \<Rightarrow> error + real list list" where
  "Conv1d_forward cv x =
     (let lp = width x + 2 * conv_padding cv;
          span = conv_dilation cv * (kernel_size cv - 1) + 1
      in if length x \<noteq> in_channels cv \<or> conv_stride cv = 0 \<or> lp < span then Inl RuntimeError
         else Inr (map (\<lambda>oc. map (conv_out cv x oc) [0..<(lp - span) div conv_stride cv + 1])
                    [0..<out_channels cv]))"

subsection \<open>torch.nn.GLU(dim=1), torch.nn.Dropout, slicing and addition\<close>

definition sigmoid :: "real \<Rightarrow> real" where
  "sigmoid v = 1 / (1 + exp (- v))"

text \<open>
  The gated linear unit over the channel dimension: the channels are split into two
  halves, and the result is the first half times the sigmoid of the second. An odd number
  of channels raises RuntimeError.
\<close>

definition glu :: "real list list \<Rightarrow> error + real list list" where
  "glu y =
     (if odd (length y) then Inl RuntimeError
      else Inr (map2 (map2 (\<lambda>a b. a * sigmoid b))
                  (take (length y div 2) y) (drop (length y div 2) y)))"

text \<open>
  Python's slice \<^verbatim>\<open>r[:-p]\<close>: for \<open>p > 0\<close> all but the last \<open>p\<close> elements; for \<open>p = 0\<close> the
  stop index is \<open>-0 = 0\<close> and the slice is empty.
\<close>

definition slice_to_neg :: "nat \<Rightarrow> 'a list \<Rightarrow> 'a list" where
  "slice_to_neg p r = (if p = 0 then [] else take (length r - p) r)"

text \<open>
  Dropout with probability \<open>p\<close>. In inference mode (\<open>None\<close>) it is the identity. In
  training mode the module draws a Bernoulli mask; the mask drawn is the argument
  \<open>Some keep\<close>, and a kept element is scaled by \<open>1 / (1 - p)\<close>.
\<close>

definition dropout_forward ::
  "real \<Rightarrow> (nat \<Rightarrow> nat \<Rightarrow> bool) option \<Rightarrow> real list list \<Rightarrow> real list list" where
  "dropout_forward p m x =
     (case m of
        None \<Rightarrow> x
      | Some keep \<Rightarrow>
          map (\<lambda>c. map (\<lambda>t. if keep c t then x ! c ! t / (1 - p) else 0) [0..<length (x ! c)])
            [0..<length x])"

text \<open>
  Addition of two tensors with PyTorch's broadcasting: in each dimension the sizes are
  equal or one of them is 1 (and is repeated); otherwise RuntimeError.
\<close>

definition bdim :: "nat \<Rightarrow> nat \<Rightarrow> nat option" where
  "bdim m n = (if m = n then Some m else if m = 1 then Some n else if n = 1 then Some m else None)"

definition tensor_add :: "real list list \<Rightarrow> real list list \<Rightarrow> error + real list list" where
  "tensor_add a b =
     (case (bdim (length a) (length b), bdim (width a) (width b)) of
        (Some c, Some l) \<Rightarrow>
          Inr (map (\<lambda>i. map (\<lambda>t. a ! (if length a = 1 then 0 else i) ! (if width a = 1 then 0 else t) +
                                 b ! (if length b = 1 then 0 else i) ! (if width b = 1 then 0 else t))
                         [0..<l])
                 [0..<c])
      | _ \<Rightarrow> Inl RuntimeError)"

section \<open>ConvLayer: the gated residual convolution block\<close>

text \<open>
  The parameter tensors of a block: the weight and bias of its convolution and of its
  1x1 projection. Their values are what initialisation and training made them; the model
  holds for all of them.
\<close>

record layer_params =
  conv_w :: "real list list list"
  conv_b :: "real list"
  trans_w :: "real list list list"
  trans_b :: "real list"

record ConvLayer =
  conv :: Conv1d
  dilation :: nat
  padding :: nat
  dropout :: real
  trans' :: "Conv1d option"

text \<open>\<^verbatim>\<open>ConvLayer.__init__\<close>: the projection exists only when the channel counts differ.\<close>

definition ConvLayer_init ::
  "nat \<Rightarrow> nat \<Rightarrow> nat \<Rightarrow> nat \<Rightarrow> nat \<Rightarrow> nat \<Rightarrow> real \<Rightarrow> layer_params \<Rightarrow> ConvLayer" where
  "ConvLayer_init n_inputs n_outputs ksize strd dil padd dropout_p ps =
     \<lparr> conv = \<lparr> in_channels = n_inputs, out_channels = n_outputs * 2, kernel_size = ksize,
                conv_stride = strd, conv_padding = padd, conv_dilation = dil,
                conv_weight = conv_w ps, conv_bias = conv_b ps \<rparr>,
       dilation = dil,
       padding = padd,
       dropout = dropout_p,
       trans' = (if n_inputs \<noteq> n_outputs
                 then Some \<lparr> in_channels = n_inputs, out_channels = n_outputs, kernel_size = 1,
                             conv_stride = 1, conv_padding = 0, conv_dilation = 1,
                             conv_weight = trans_w ps, conv_bias = trans_b ps \<rparr>
                 else None) \<rparr>"

text \<open>
  The gated branch of \<^verbatim>\<open>ConvLayer.forward\<close>: the convolution, the trimming of the last
  \<open>padding\<close> positions unless \<open>dilation = padding\<close>, and the gated linear unit.
\<close>

definition gated :: "ConvLayer \<Rightarrow> real list list \<Rightarrow> error + real list list" where
  "gated cl x =
     bindE (Conv1d_forward (conv cl) x) (\<lambda>y.
       if dilation cl \<noteq> padding cl then glu (map (slice_to_neg (padding cl)) y) else glu y)"

definition ConvLayer_forward ::
  "ConvLayer \<Rightarrow> (nat \<Rightarrow> nat \<Rightarrow> bool) option \<Rightarrow> real list list \<Rightarrow> error + real list list" where
  "ConvLayer_forward cl m x =
     bindE (gated cl x) (\<lambda>out.
     bindE (case trans' cl of None \<Rightarrow> Inr x | Some tr \<Rightarrow> Conv1d_forward tr x) (\<lambda>x'.
       tensor_add (dropout_forward (dropout cl) m out) x'))"

section \<open>GenEncoder and GEN: the generative model\<close>

subsection \<open>torch.nn.Embedding, torch.nn.Linear, transpose\<close>

text \<open>
  An embedding looks each token up in its table of shape
  \<open>(num_embeddings, embedding_dim)\<close>; a token outside the table raises IndexError. Tokens
  are natural numbers.
\<close>

record Embedding =
  num_embeddings :: nat
  embedding_dim :: nat
  emb_weight :: "real list list"

definition Embedding_forward :: "Embedding \<Rightarrow> nat list \<Rightarrow> error + real list list" where
  "Embedding_forward e toks =
     (if list_ex (\<lambda>t. num_embeddings e \<le> t) toks then Inl IndexError
      else Inr (map (\<lambda>t. map (\<lambda>c. emb_weight e ! t ! c) [0..<embedding_dim e]) toks))"

text \<open>
  A linear layer maps every row \<open>v\<close> of its input to \<open>W v + b\<close>, with \<open>W\<close> of shape
  \<open>(out_features, in_features)\<close>; without a bias, \<open>b\<close> is absent. A row of another length
  than \<open>in_features\<close> raises RuntimeError.
\<close>

record Linear =
  in_features :: nat
  out_features :: nat
  lin_weight :: "real list list"
  lin_bias :: "real list option"

definition Linear_row :: "Linear \<Rightarrow> real list \<Rightarrow> real list" where
  "Linear_row l v =
     map (\<lambda>oc. (\<Sum>i\<leftarrow>[0..<in_features l]. lin_weight l ! oc ! i * v ! i) +
                (case lin_bias l of None \<Rightarrow> 0 | Some b \<Rightarrow> b ! oc))
       [0..<out_features l]"

definition Linear_forward :: "Linear \<Rightarrow> real list list \<Rightarrow> error + real list list" where
  "Linear_forward l x =
     (if list_ex (\<lambda>v. length v \<noteq> in_features l) x then Inl RuntimeError
      else Inr (map (Linear_row l) x))"

text \<open>\<^verbatim>\<open>x.transpose(1, 2)\<close> on one batch element: rows and columns are exchanged.\<close>

definition transpose12 :: "real list list \<Rightarrow> real list list" where
  "transpose12 x = map (\<lambda>c. map (\<lambda>r. r ! c) x) [0..<width x]"

subsection \<open>GenEncoder\<close>

text \<open>
  \<^verbatim>\<open>GenEncoder.__init__\<close>: level \<open>i\<close> has dilation \<open>2 ^ i\<close> and padding
  \<open>(kernel_size - 1) * 2 ^ i\<close>; level 0 maps \<open>input_size\<close> channels to \<open>hid_size\<close>, the
  others \<open>hid_size\<close> to \<open>hid_size\<close>. \<open>ps i\<close> are the parameter tensors of level \<open>i\<close>.
\<close>

record GenEncoder =
  network :: "ConvLayer list"

definition GenEncoder_init ::
  "nat \<Rightarrow> nat \<Rightarrow> nat \<Rightarrow> nat \<Rightarrow> real \<Rightarrow> (nat \<Rightarrow> layer_params) \<Rightarrow> GenEncoder" where
  "GenEncoder_init input_size hid_size n_levels ksize dropout_p ps =
     \<lparr> network =
         map (\<lambda>i. let dilation_size = 2 ^ i in
                if i = 0
                then ConvLayer_init input_size hid_size ksize 1 dilation_size
                       ((ksize - 1) * dilation_size) dropout_p (ps i)
                else ConvLayer_init hid_size hid_size ksize 1 dilation_size
                       ((ksize - 1) * dilation_size) dropout_p (ps i))
           [0..<n_levels] \<rparr>"

text \<open>
  \<^verbatim>\<open>nn.Sequential\<close>: the layers one after the other. In training mode \<open>m\<close> holds the
  masks the dropout modules draw, by module: module \<open>i\<close> is the dropout of the layer
  at position \<open>i\<close> counted from \<open>i0\<close>.
\<close>

fun Sequential_forward ::
  "ConvLayer list \<Rightarrow> (nat \<Rightarrow> nat \<Rightarrow> nat \<Rightarrow> bool) option \<Rightarrow> nat \<Rightarrow> real list list
     \<Rightarrow> error + real list list" where
  "Sequential_forward [] m i0 x = Inr x"
| "Sequential_forward (l # ls) m i0 x =
     bindE (ConvLayer_forward l (map_option (\<lambda>r. r i0) m) x) (Sequential_forward ls m (Suc i0))"

definition GenEncoder_forward ::
  "GenEncoder \<Rightarrow> (nat \<Rightarrow> nat \<Rightarrow> nat \<Rightarrow> bool) option \<Rightarrow> real list list \<Rightarrow> error + real list list" where
  "GenEncoder_forward enc m x = Sequential_forward (network enc) m 1 x"

subsection \<open>GEN\<close>

record GEN_params =
  emb_w :: "real list list"
  linear_w :: "real list list"
  encoder_ps :: "nat \<Rightarrow> layer_params"
  decoder_w :: "real list list"
  decoder_b :: "real list"

record GEN =
  emb :: Embedding
  drop' :: real
  linear :: Linear
  encoder :: GenEncoder
  decoder :: Linear

definition GEN_init ::
  "nat \<Rightarrow> nat \<Rightarrow> nat \<Rightarrow> nat \<Rightarrow> nat \<Rightarrow> nat \<Rightarrow> real \<Rightarrow> real \<Rightarrow> GEN_params \<Rightarrow> GEN" where
  "GEN_init input_size dic_size output_size hid_size n_levels ksize emb_dropout dropout_p ps =
     \<lparr> emb = \<lparr> num_embeddings = dic_size, embedding_dim = input_size, emb_weight = emb_w ps \<rparr>,
       drop' = emb_dropout,
       linear = \<lparr> in_features = input_size, out_features = hid_size,
                  lin_weight = linear_w ps, lin_bias = None \<rparr>,
       encoder = GenEncoder_init input_size hid_size n_levels ksize dropout_p (encoder_ps ps),
       decoder = \<lparr> in_features = hid_size, out_features = output_size,
                   lin_weight = decoder_w ps, lin_bias = Some (decoder_b ps) \<rparr> \<rparr>"

text \<open>
  \<^verbatim>\<open>GEN.forward\<close> on one batch element (a token sequence), and on a batch. The mode is
  \<open>None\<close> for inference (\<^verbatim>\<open>model.eval()\<close>) and \<open>Some masks\<close> for training, with the masks
  of the dropout modules: module 0 is \<^verbatim>\<open>GEN.drop\<close>, module \<open>i + 1\<close> the dropout of level
  \<open>i\<close>; on a batch the first index of the masks is the batch element.
\<close>

definition GEN_forward1 ::
  "GEN \<Rightarrow> (nat \<Rightarrow> nat \<Rightarrow> nat \<Rightarrow> bool) option \<Rightarrow> nat list \<Rightarrow> error + real list list" where
  "GEN_forward1 g m input =
     bindE (Embedding_forward (emb g) input) (\<lambda>e.
     bindE (GenEncoder_forward (encoder g) m
              (transpose12 (dropout_forward (drop' g) (map_option (\<lambda>r. r 0) m) e))) (\<lambda>y.
       Linear_forward (decoder g) (transpose12 y)))"

definition GEN_forward ::
  "GEN \<Rightarrow> (nat \<Rightarrow> nat \<Rightarrow> nat \<Rightarrow> nat \<Rightarrow> bool) option \<Rightarrow> nat list list
     \<Rightarrow> error + real list list list" where
  "GEN_forward g m input =
     mapE (\<lambda>b. GEN_forward1 g (map_option (\<lambda>r. r b) m) (input ! b)) [0..<length input]"

section \<open>Training: the loss and the best checkpoint\<close>

text \<open>
  In \<^verbatim>\<open>gen.py\<close> the model is a global; here it is the argument \<open>model\<close>, the forward
  function of the module in the mode it has been put in.
\<close>

definition softmax :: "real list \<Rightarrow> real list" where
  "softmax v = map (\<lambda>a. exp a / (\<Sum>b\<leftarrow>v. exp b)) v"

text \<open>
  \<^verbatim>\<open>nn.CrossEntropyLoss()\<close>: the mean over the rows of the negative log of the softmax
  probability of the row's target. A target count that differs from the row count raises
  ValueError, a target outside the classes IndexError.
\<close>

definition nll :: "real list \<Rightarrow> nat \<Rightarrow> real" where
  "nll row tgt = - ln (softmax row ! tgt)"

definition CrossEntropyLoss :: "real list list \<Rightarrow> nat list \<Rightarrow> error + real" where
  "CrossEntropyLoss inp tgt =
     (if length inp \<noteq> length tgt then Inl ValueError
      else if list_ex (\<lambda>(row, c). length row \<le> c) (zip inp tgt) then Inl IndexError
      else Inr ((\<Sum>(row, c)\<leftarrow>zip inp tgt. nll row c) / real (length tgt)))"

text \<open>
  \<^verbatim>\<open>output.contiguous().view(-1, n)\<close>: the elements in row-major order, cut into rows
  of \<open>n\<close>; RuntimeError when their number is not a multiple of \<open>n\<close>.
\<close>

definition view_rows :: "nat \<Rightarrow> real list list list \<Rightarrow> error + real list list" where
  "view_rows n output =
     (let flat = concat (concat output) in
      if n = 0 \<or> length flat mod n \<noteq> 0 then Inl RuntimeError
      else Inr (map (\<lambda>r. take n (drop (r * n) flat)) [0..<length flat div n]))"

text \<open>The loss of one batch: the body of the loops of \<^verbatim>\<open>train\<close> and \<^verbatim>\<open>evaluate\<close>.\<close>

definition batch_loss ::
  "(nat list list \<Rightarrow> error + real list list list) \<Rightarrow> nat \<Rightarrow> nat list list \<Rightarrow> error + real" where
  "batch_loss model n_words data =
     (let targets = map (drop 1) data;
          inputs = map (slice_to_neg 1) data in
      bindE (model inputs) (\<lambda>output.
      bindE (view_rows n_words output) (\<lambda>final_output.
        CrossEntropyLoss final_output (concat targets))))"

definition evaluate ::
  "(nat list list \<Rightarrow> error + real list list list) \<Rightarrow> nat \<Rightarrow> nat list list list \<Rightarrow> error + real" where
  "evaluate model n_words data_iter =
     bindE (mapE (batch_loss model n_words) data_iter) (\<lambda>losses.
       if data_iter = [] then Inl ZeroDivisionError
       else Inr (sum_list losses / real (length data_iter)))"

text \<open>
  \<^verbatim>\<open>train\<close>: one pass over the batches. The model's parameters are \<open>p\<close>, \<open>fwd p m\<close> is its
  forward function in training mode with the dropout masks \<open>m\<close>, and \<open>step\<close> is the update
  by \<^verbatim>\<open>loss.backward()\<close> and \<^verbatim>\<open>optimizer.step()\<close>. Each batch comes with the masks drawn
  for it.
\<close>

fun train_loop ::
  "('p \<Rightarrow> 'm \<Rightarrow> nat list list \<Rightarrow> error + real list list list) \<Rightarrow> ('p \<Rightarrow> 'm \<Rightarrow> nat list list \<Rightarrow> 'p)
     \<Rightarrow> nat \<Rightarrow> 'p \<Rightarrow> real \<Rightarrow> (nat list list \<times> 'm) list \<Rightarrow> error + 'p \<times> real" where
  "train_loop fwd step n_words p total_loss [] = Inr (p, total_loss)"
| "train_loop fwd step n_words p total_loss ((data, m) # rest) =
     bindE (batch_loss (fwd p m) n_words data) (\<lambda>loss.
       train_loop fwd step n_words (step p m data) (total_loss + loss) rest)"

definition train ::
  "('p \<Rightarrow> 'm \<Rightarrow> nat list list \<Rightarrow> error + real list list list) \<Rightarrow> ('p \<Rightarrow> 'm \<Rightarrow> nat list list \<Rightarrow> 'p)
     \<Rightarrow> nat \<Rightarrow> 'p \<Rightarrow> (nat list list \<times> 'm) list \<Rightarrow> error + 'p \<times> real" where
  "train fwd step n_words p train_iter =
     bindE (train_loop fwd step n_words p 0 train_iter) (\<lambda>(p', total_loss).
       if train_iter = [] then Inl ZeroDivisionError
       else Inr (p', total_loss / real (length train_iter)))"






section \<open>Sampling\<close>

text \<open>
  \<^verbatim>\<open>torch.multinomial(probs, num_samples=1)\<close> draws index \<open>w\<close> with probability
  \<open>probs[w] / sum(probs)\<close>. The randomness is an argument: a uniform variate \<open>u\<close> of
  \<open>[0, 1)\<close> per draw, and the index drawn is the one whose interval of the cumulative
  distribution holds \<open>u * sum(probs)\<close>.
\<close>

fun pick :: "real list \<Rightarrow> real \<Rightarrow> nat" where
  "pick [] r = 0"
| "pick (p # ps) r = (if r < p \<or> ps = [] then 0 else Suc (pick ps (r - p)))"

definition multinomial :: "real list \<Rightarrow> real \<Rightarrow> nat" where
  "multinomial probs u = pick probs (u * sum_list probs)"

definition newline :: char where
  "newline = CHR 0x0A"

text \<open>
  One iteration of the body of the \<^verbatim>\<open>while\<close> loop of \<^verbatim>\<open>sample\<close>, on the state
  \<open>(input, word)\<close> with the variate \<open>u\<close>.
\<close>

definition sample_step ::
  "(nat list list \<Rightarrow> error + real list list list) \<Rightarrow> string list \<Rightarrow> nat list \<times> string \<Rightarrow> real
     \<Rightarrow> error + nat list \<times> string" where
  "sample_step model idx2word st u =
     (case st of (input, word) \<Rightarrow>
        bindE (model [input]) (\<lambda>output.
        bindE (view_rows (length idx2word) output) (\<lambda>final_output.
          if final_output = [] then Inl IndexError
          else let word_id = multinomial (softmax (last final_output)) u in
               if length idx2word \<le> word_id then Inl IndexError
               else Inr (input @ [word_id], word @ idx2word ! word_id))))"

text \<open>
  The \<^verbatim>\<open>while\<close> loop. It has no bound: it runs until the word ends with a newline. \<open>us\<close>
  are the variates of the draws to come; the loop returns \<open>None\<close> when it is still
  running after all of them, and otherwise the exception raised or the final state with
  the variates left.
\<close>

fun sample_loop ::
  "(nat list list \<Rightarrow> error + real list list list) \<Rightarrow> string list \<Rightarrow> nat list \<times> string \<Rightarrow> real list
     \<Rightarrow> (error + (nat list \<times> string) \<times> real list) option" where
  "sample_loop model idx2word (input, word) us =
     (if word = [] then Some (Inl IndexError)
      else if last word = newline then Some (Inr ((input, word), us))
      else case us of
             [] \<Rightarrow> None
           | u # us' \<Rightarrow>
               (case sample_step model idx2word (input, word) u of
                  Inl e \<Rightarrow> Some (Inl e)
                | Inr st' \<Rightarrow> sample_loop model idx2word st' us'))"

declare sample_loop.simps [simp del]

text \<open>
  The \<^verbatim>\<open>for\<close> loop of \<^verbatim>\<open>sample\<close>, \<open>k\<close> iterations to go, on the counters \<open>(n, ss)\<close>.
  \<open>MolFromSmiles s\<close> is \<^verbatim>\<open>bool(Chem.MolFromSmiles(s))\<close>: the truth value of what the
  oracle returns, or the exception it raises.
\<close>

fun sample_for ::
  "(nat list list \<Rightarrow> error + real list list list) \<Rightarrow> (string \<Rightarrow> error + bool) \<Rightarrow> string list
     \<Rightarrow> string list \<Rightarrow> nat \<Rightarrow> nat \<times> string list \<Rightarrow> real list
     \<Rightarrow> (error + (nat \<times> string list) \<times> real list) option" where
  "sample_for model MolFromSmiles idx2word smi 0 acc us = Some (Inr (acc, us))"
| "sample_for model MolFromSmiles idx2word smi (Suc k) (n, ss) us =
     (case sample_loop model idx2word ([1], ''&'') us of
        None \<Rightarrow> None
      | Some (Inl e) \<Rightarrow> Some (Inl e)
      | Some (Inr ((input, word), us')) \<Rightarrow>
          (case MolFromSmiles (drop 1 word) of
             Inl e \<Rightarrow> Some (Inl e)
           | Inr valid \<Rightarrow>
               sample_for model MolFromSmiles idx2word smi k
                 (if valid
                  then (n + 1,
                        if drop 1 word \<notin> set smi \<and> drop 1 word \<notin> set ss
                        then ss @ [drop 1 word] else ss)
                  else (n, ss))
                 us'))"

text \<open>
  \<^verbatim>\<open>sample\<close> returns the list \<open>ss\<close>; the validity rate \<open>n / num_samples\<close> it prints is
  returned with it. For \<open>num_samples = 0\<close> the division raises ZeroDivisionError.
\<close>

definition sample ::
  "(nat list list \<Rightarrow> error + real list list list) \<Rightarrow> (string \<Rightarrow> error + bool) \<Rightarrow> string list
     \<Rightarrow> string list \<Rightarrow> nat \<Rightarrow> real list \<Rightarrow> (error + string list \<times> real) option" where
  "sample model MolFromSmiles idx2word smi num_samples us =
     (case sample_for model MolFromSmiles idx2word smi num_samples (0, []) us of
        None \<Rightarrow> None
      | Some (Inl e) \<Rightarrow> Some (Inl e)
      | Some (Inr ((n, ss), us')) \<Rightarrow>
          if num_samples = 0 then Some (Inl ZeroDivisionError)
          else Some (Inr (ss, real n / real num_samples)))"





section \<open>What the specification says, as predicates\<close>






text \<open>
  What one completed draw hands to the oracle: a string that is not empty, ends with
  the newline, and is the decoding of the tokens drawn (the start symbol the word began
  with is not part of it).
\<close>

definition generated :: "string list \<Rightarrow> string \<Rightarrow> bool" where
  "generated idx2word s =
     (s \<noteq> [] \<and> last s = newline \<and>
      (\<exists>drawn. drawn \<noteq> [] \<and> list_all (\<lambda>w. w < length idx2word) drawn \<and>
         s = concat (map (nth idx2word) drawn)))"

text \<open>
  The oracle as the specification wants it used: an exception is caught and the string
  counts as invalid.
\<close>

definition caught :: "(string \<Rightarrow> error + bool) \<Rightarrow> string \<Rightarrow> error + bool" where
  "caught MolFromSmiles s = (case MolFromSmiles s of Inl e \<Rightarrow> Inr False | Inr valid \<Rightarrow> Inr valid)"

section \<open>A small model for the examples\<close>

text \<open>
  A generative model with one level, kernel size 3, one channel everywhere, a vocabulary
  of three tokens and all parameters zero: every logit is 0 and every token is drawn
  with probability 1/3. Token 1 is the start symbol and token 2 the newline.
\<close>

definition tiny_layer :: "nat \<Rightarrow> layer_params" where
  "tiny_layer i =
     \<lparr> conv_w = [[[0, 0, 0]], [[0, 0, 0]]], conv_b = [0, 0], trans_w = [], trans_b = [] \<rparr>"

definition tiny_params :: GEN_params where
  "tiny_params =
     \<lparr> emb_w = [[0], [0], [0]], linear_w = [[0]], encoder_ps = tiny_layer,
       decoder_w = [[0], [0], [0]], decoder_b = [0, 0, 0] \<rparr>"

definition tiny_gen :: GEN where
  "tiny_gen = GEN_init 1 3 3 1 1 3 (1 / 10) (1 / 5) tiny_params"

definition tiny_vocab :: "string list" where
  "tiny_vocab = [''C'', ''&'', [newline]]"

definition raising_oracle :: "string \<Rightarrow> error + bool" where
  "raising_oracle s = Inl OracleError"

definition accepting_oracle :: "string \<Rightarrow> error + bool" where
  "accepting_oracle s = Inr True"

text \<open>
  What dropout does to the element \<open>v\<close> at row \<open>c\<close> and column \<open>t\<close>.
\<close>

definition dropout_at :: "real \<Rightarrow> (nat \<Rightarrow> nat \<Rightarrow> bool) option \<Rightarrow> nat \<Rightarrow> nat \<Rightarrow> real \<Rightarrow> real" where
  "dropout_at p m c t v = (case m of None \<Rightarrow> v | Some keep \<Rightarrow> if keep c t then v / (1 - p) else 0)"

text \<open>
  The value of a block at channel \<open>c\<close> and position \<open>t\<close> when nothing goes wrong: the
  gated convolution, after dropout, plus the input or its projection.
\<close>

definition block_at :: "ConvLayer \<Rightarrow> (nat \<Rightarrow> nat \<Rightarrow> bool) option \<Rightarrow> real list list \<Rightarrow> nat \<Rightarrow> nat \<Rightarrow> real" where
  "block_at cl m x c t =
     dropout_at (dropout cl) m c t
       (conv_out (conv cl) x c t *
        sigmoid (conv_out (conv cl) x (c + out_channels (conv cl) div 2) t)) +
     (case trans' cl of None \<Rightarrow> x ! c ! t | Some tr \<Rightarrow> conv_out tr x c t)"

text \<open>Two tensors with the same channels agree at all positions before \<open>n\<close>.\<close>

definition agree_upto :: "nat \<Rightarrow> 'a list list \<Rightarrow> 'a list list \<Rightarrow> bool" where
  "agree_upto n x y = (length x = length y \<and> list_all (\<lambda>(r, s). take n r = take n s) (zip x y))"

text \<open>The parameters of a block from one channel to two, kernel size 3, all zero.\<close>

definition wide_layer :: layer_params where
  "wide_layer =
     \<lparr> conv_w = [[[0, 0, 0]], [[0, 0, 0]], [[0, 0, 0]], [[0, 0, 0]]], conv_b = [0, 0, 0, 0],
       trans_w = [[[0]], [[0]]], trans_b = [0, 0] \<rparr>"

text \<open>
  Two more oracles for the examples: one that raises on the string made of a newline
  alone and accepts every other string, and one that rejects every string.
\<close>

definition picky_oracle :: "string \<Rightarrow> error + bool" where
  "picky_oracle s = (if s = [newline] then Inl OracleError else Inr True)"

definition rejecting_oracle :: "string \<Rightarrow> error + bool" where
  "rejecting_oracle s = Inr False"

section \<open>Properties\<close>

subsection \<open>Results as values\<close>

lemma bindE_Inr [simp]: "bindE (Inr v) f = f v"
  by (simp add: bindE_def)

lemma bindE_Inl [simp]: "bindE (Inl e) f = Inl e"
  by (simp add: bindE_def)

subsection \<open>The generative model does not use its \<open>linear\<close> layer\<close>

text \<open>
  C9. \<^verbatim>\<open>GEN.forward\<close> never applies \<^verbatim>\<open>GEN.linear\<close>: replacing that layer, or building
  the model from parameters that differ only in the weight of that layer, leaves the
  output unchanged, for every input and in both modes.
\<close>

theorem GEN_forward_ignores_linear:
  "GEN_forward (g\<lparr>linear := l\<rparr>) m input = GEN_forward g m input \<and>
   GEN_forward (GEN_init input_size dic_size output_size hid_size n_levels ksize emb_dropout
                  dropout_p (ps\<lparr>linear_w := w\<rparr>)) m input =
   GEN_forward (GEN_init input_size dic_size output_size hid_size n_levels ksize emb_dropout
                  dropout_p ps) m input"
  by (simp add: GEN_forward_def GEN_forward1_def GEN_init_def)

subsection \<open>The best checkpoint\<close>












subsection \<open>The sampling loops\<close>

lemma sample_step_Inr:
  assumes "sample_step model i2w (input, word) u = Inr st'"
  shows "\<exists>w. w < length i2w \<and> st' = (input @ [w], word @ i2w ! w)"
  using assms
  by (auto simp: sample_step_def bindE_def Let_def split: sum.splits if_splits)

lemma sample_loop_result:
  "sample_loop model i2w (input, word) us = Some (Inr ((input', word'), us')) \<Longrightarrow>
     word' \<noteq> [] \<and> last word' = newline \<and>
     (\<exists>drawn. input' = input @ drawn \<and> word' = word @ concat (map (nth i2w) drawn) \<and>
        list_all (\<lambda>w. w < length i2w) drawn \<and> length us = length drawn + length us')"
proof (induction us arbitrary: input word)
  case Nil
  then show ?case
    by (auto simp: sample_loop.simps[of _ _ input word "[]"] split: if_splits intro: exI[of _ "[]"])
next
  case (Cons u us1)
  note eq = sample_loop.simps[of model i2w input word "u # us1"]
  show ?case
  proof (cases "word = [] \<or> last word = newline")
    case True
    with Cons.prems show ?thesis
      by (auto simp: eq split: if_splits intro: exI[of _ "[]"])
  next
    case False
    then have w: "word \<noteq> []" "last word \<noteq> newline" by auto
    from Cons.prems w obtain st1 where st: "sample_step model i2w (input, word) u = Inr st1"
      and rest: "sample_loop model i2w st1 us1 = Some (Inr ((input', word'), us'))"
      by (auto simp: eq split: sum.splits)
    from sample_step_Inr[OF st] obtain w0 where w0: "w0 < length i2w"
      and st1: "st1 = (input @ [w0], word @ i2w ! w0)" by blast
    from Cons.IH[OF rest[unfolded st1]]
    obtain drawn where d: "word' \<noteq> []" "last word' = newline"
      "input' = (input @ [w0]) @ drawn" "word' = (word @ i2w ! w0) @ concat (map (nth i2w) drawn)"
      "list_all (\<lambda>w. w < length i2w) drawn" "length us1 = length drawn + length us'"
      by blast
    show ?thesis
      using d w0 by (auto intro!: exI[of _ "w0 # drawn"])
  qed
qed

lemma sample_loop_start:
  assumes "sample_loop model i2w ([1], ''&'') us = Some (Inr ((input', word'), us'))"
  shows "generated i2w (drop 1 word') \<and> word' = CHR ''&'' # drop 1 word' \<and> length us' < length us"
proof -
  from sample_loop_result[OF assms] obtain drawn where d: "word' \<noteq> []" "last word' = newline"
    "input' = [1] @ drawn" "word' = ''&'' @ concat (map (nth i2w) drawn)"
    "list_all (\<lambda>w. w < length i2w) drawn" "length us = length drawn + length us'" by blast
  have ne: "concat (map (nth i2w) drawn) \<noteq> []"
    using d(2,4) by (auto simp: newline_def split: if_splits)
  then have dn: "drawn \<noteq> []" by auto
  have w: "word' = CHR ''&'' # concat (map (nth i2w) drawn)" using d(4) by simp
  have l: "last (concat (map (nth i2w) drawn)) = newline"
    using d(2) last_ConsR[OF ne, of "CHR ''&''"] unfolding w by simp
  have dw: "drop 1 word' = concat (map (nth i2w) drawn)" unfolding w by simp
  have "length us' < length us" using d(6) dn by simp
  with d(5) ne dn l dw w show ?thesis unfolding generated_def by auto
qed

lemma sample_for_inv:
  "sample_for model oracle i2w smi k (n, ss) us = Some (Inr ((n', ss'), us')) \<Longrightarrow>
     \<exists>new. ss' = ss @ new \<and> distinct new \<and> set new \<inter> set ss = {} \<and> length new \<le> k \<and>
       n' \<le> n + k \<and> n + length new \<le> n' \<and>
       list_all (\<lambda>s. oracle s = Inr True \<and> s \<notin> set smi \<and> generated i2w s) new"
proof (induction k arbitrary: n ss us)
  case 0
  then show ?case by simp
next
  case (Suc k)
  from Suc.prems obtain input1 word1 us1 valid where
    l: "sample_loop model i2w ([1], ''&'') us = Some (Inr ((input1, word1), us1))"
    and o: "oracle (drop 1 word1) = Inr valid"
    and r: "sample_for model oracle i2w smi k
              (if valid then (n + 1, if drop 1 word1 \<notin> set smi \<and> drop 1 word1 \<notin> set ss
                  then ss @ [drop 1 word1] else ss) else (n, ss)) us1 = Some (Inr ((n', ss'), us'))"
    by (auto split: option.splits sum.splits prod.splits)
  note g = sample_loop_start[OF l]
  show ?case
  proof (cases "valid \<and> drop 1 word1 \<notin> set smi \<and> drop 1 word1 \<notin> set ss")
    case True
    with r have "sample_for model oracle i2w smi k (n + 1, ss @ [drop 1 word1]) us1 = Some (Inr ((n', ss'), us'))"
      by simp
    from Suc.IH[OF this] obtain new where new: "ss' = (ss @ [drop 1 word1]) @ new" "distinct new"
      "set new \<inter> set (ss @ [drop 1 word1]) = {}" "length new \<le> k" "n' \<le> n + 1 + k"
      "n + 1 + length new \<le> n'"
      "list_all (\<lambda>s. oracle s = Inr True \<and> s \<notin> set smi \<and> generated i2w s) new" by blast
    show ?thesis
      apply (rule exI[of _ "drop 1 word1 # new"])
      using new True o g by auto
  next
    case False
    then obtain n1 where "n1 = n \<or> n1 = n + 1" and
      "sample_for model oracle i2w smi k (n1, ss) us1 = Some (Inr ((n', ss'), us'))"
      using r by (auto split: if_splits)
    from Suc.IH[OF this(2)] this(1) show ?thesis
      by (elim exE) (rule_tac x=new in exI, auto)
  qed
qed



lemma caught_agree:
  "sample_for model oracle i2w smi k acc us = sample_for model (caught oracle) i2w smi k acc us \<or>
   (\<exists>e s. generated i2w s \<and> oracle s = Inl e \<and>
      sample_for model oracle i2w smi k acc us = Some (Inl e))"
proof (induction k arbitrary: acc us)
  case 0
  then show ?case by simp
next
  case (Suc k)
  obtain n ss where acc: "acc = (n, ss)" by (cases acc)
  show ?case
  proof (cases "sample_loop model i2w ([1], ''&'') us")
    case None
    then show ?thesis by (simp add: acc)
  next
    case (Some r)
    show ?thesis
    proof (cases r)
      case (Inl e)
      with Some show ?thesis by (simp add: acc)
    next
      case (Inr st)
      obtain input1 word1 us1 where st: "st = ((input1, word1), us1)" by (cases st) auto
      note l = Some[unfolded Inr st]
      note g = sample_loop_start[OF l]
      show ?thesis
      proof (cases "oracle (drop 1 word1)")
        case (Inl e)
        have "sample_for model oracle i2w smi (Suc k) acc us = Some (Inl e)"
          using l Inl by (simp add: acc)
        with g Inl show ?thesis by blast
      next
        case (Inr valid)
        then have c: "caught oracle (drop 1 word1) = Inr valid" by (simp add: caught_def)
        define acc1 where "acc1 = (if valid then (n + 1, if drop 1 word1 \<notin> set smi \<and> drop 1 word1 \<notin> set ss
                  then ss @ [drop 1 word1] else ss) else (n, ss))"
        have 1: "sample_for model oracle i2w smi (Suc k) acc us = sample_for model oracle i2w smi k acc1 us1"
          using l Inr by (simp add: acc acc1_def)
        have 2: "sample_for model (caught oracle) i2w smi (Suc k) acc us = sample_for model (caught oracle) i2w smi k acc1 us1"
          using l c by (simp add: acc acc1_def)
        show ?thesis unfolding 1 2 by (rule Suc.IH)
      qed
    qed
  qed
qed

subsection \<open>The small model, evaluated\<close>

lemmas forward_defs = GEN_forward_def GEN_forward1_def Embedding_forward_def dropout_forward_def
  transpose12_def width_def GenEncoder_forward_def GenEncoder_init_def ConvLayer_forward_def
  ConvLayer_init_def gated_def Conv1d_forward_def conv_out_def pad_def glu_def slice_to_neg_def
  tensor_add_def bdim_def Linear_forward_def Linear_row_def GEN_init_def Let_def

lemma tiny_forward: "GEN_forward tiny_gen None [[Suc 0]] = Inr [[[0, 0, 0]]]"
  by (simp add: tiny_gen_def tiny_params_def tiny_layer_def forward_defs eval_nat_numeral)

lemma tiny_view: "view_rows (length tiny_vocab) [[[0, 0, 0]]] = Inr [[0, 0, 0]]"
  by (simp add: view_rows_def tiny_vocab_def Let_def)

lemma tiny_draw: "multinomial (softmax [0, 0, 0]) (9 / 10) = 2"
  by (simp add: softmax_def multinomial_def)

lemma tiny_step:
  "sample_step (GEN_forward tiny_gen None) tiny_vocab ([Suc 0], ''&'') (9 / 10) =
     Inr ([Suc 0, 2], ''&'' @ [newline])"
  by (simp add: sample_step_def tiny_forward tiny_view tiny_draw) (simp add: tiny_vocab_def)

lemma tiny_loop:
  "sample_loop (GEN_forward tiny_gen None) tiny_vocab ([Suc 0], ''&'') (9 / 10 # us) =
     Some (Inr (([Suc 0, 2], ''&'' @ [newline]), us))"
  by (simp add: sample_loop.simps tiny_step newline_def)

lemma tiny_sample_twice:
  "sample (GEN_forward tiny_gen None) accepting_oracle tiny_vocab [''CC'' @ [newline], ''C''] 2
     [9 / 10, 9 / 10] = Some (Inr ([[newline]], 1))"
  by (simp add: sample_def eval_nat_numeral tiny_loop accepting_oracle_def newline_def)

lemma upt_small:
  "[0..<3] = [0, 1, 2]" "[0..<2] = [0, 1]" "[0..<Suc 0] = [0]" "[0..<Suc (Suc 0)] = [0, Suc 0]"
  by (simp_all add: upt_rec)

lemma tiny_forward_two: "GEN_forward tiny_gen None [[Suc 0, 0]] = Inr [[[0, 0, 0], [0, 0, 0]]]"
  by (simp add: tiny_gen_def tiny_params_def tiny_layer_def forward_defs upt_small
      upt_rec[of "Suc 0" "Suc 0"] upt_rec[of "Suc 0" "Suc (Suc 0)"])

lemma tiny_view_two:
  "view_rows (length tiny_vocab) [[[0, 0, 0], [0, 0, 0]]] = Inr [[0, 0, 0], [0, 0, 0]]"
  by (simp add: view_rows_def tiny_vocab_def Let_def upt_small)

lemma tiny_draw_first: "multinomial (softmax [0, 0, 0]) (1 / 10) = 0"
  by (simp add: softmax_def multinomial_def)

lemma tiny_step_first:
  "sample_step (GEN_forward tiny_gen None) tiny_vocab ([Suc 0], ''&'') (1 / 10) =
     Inr ([Suc 0, 0], ''&C'')"
  by (simp add: sample_step_def tiny_forward tiny_view tiny_draw_first) (simp add: tiny_vocab_def)

lemma tiny_step_second:
  "sample_step (GEN_forward tiny_gen None) tiny_vocab ([Suc 0, 0], ''&C'') (9 / 10) =
     Inr ([Suc 0, 0, 2], ''&C'' @ [newline])"
  by (simp add: sample_step_def tiny_forward_two tiny_view_two tiny_draw) (simp add: tiny_vocab_def)

lemma tiny_loop_two:
  "sample_loop (GEN_forward tiny_gen None) tiny_vocab ([Suc 0], ''&'') (1 / 10 # 9 / 10 # us) =
     Some (Inr (([Suc 0, 0, 2], ''&C'' @ [newline]), us))"
  by (simp add: sample_loop.simps tiny_step_first tiny_step_second newline_def)

lemma sample_for_add:
  "sample_for model M idx2word smi (j + k) acc us =
     (case sample_for model M idx2word smi j acc us of
        None \<Rightarrow> None
      | Some (Inl e) \<Rightarrow> Some (Inl e)
      | Some (Inr (acc', us')) \<Rightarrow> sample_for model M idx2word smi k acc' us')"
proof (induction j arbitrary: acc us)
  case 0
  then show ?case by simp
next
  case (Suc j)
  obtain n ss where acc: "acc = (n, ss)" by (cases acc)
  show ?case
    unfolding acc by (simp add: Suc.IH split: option.splits sum.splits prod.splits)
qed



subsection \<open>What the sampler keeps\<close>

text \<open>
  C4. When \<^verbatim>\<open>sample\<close> returns, every string of the list it returns was judged valid by
  the oracle and is not in the reference corpus, no string occurs twice, and the list
  has at most \<open>num_samples\<close> elements; so it has no string in common with the corpus.
\<close>

theorem sample_keeps_valid_new_strings:
  assumes "sample model MolFromSmiles idx2word smi num_samples us = Some (Inr (ss, rate))"
  shows "list_all (\<lambda>s. MolFromSmiles s = Inr True \<and> s \<notin> set smi) ss \<and> distinct ss \<and>
         length ss \<le> num_samples \<and> set ss \<inter> set smi = {}"
proof -
  from assms obtain n us' where
    "sample_for model MolFromSmiles idx2word smi num_samples (0, []) us = Some (Inr ((n, ss), us'))"
    by (auto simp: sample_def split: option.splits sum.splits prod.splits if_splits)
  from sample_for_inv[OF this] show ?thesis
    by (auto simp: list_all_iff)
qed

theorem sample_keeps_valid_new_strings_witness:
  "sample (GEN_forward tiny_gen None) accepting_oracle tiny_vocab [''CC'' @ [newline], ''C''] 2
     [9 / 10, 9 / 10] = Some (Inr ([[newline]], 1)) \<and>
   list_all (\<lambda>s. accepting_oracle s = Inr True \<and> s \<notin> set [''CC'' @ [newline], ''C'']) [[newline]] \<and>
   distinct [[newline]] \<and> length [[newline]] \<le> (2 :: nat) \<and>
   set [[newline]] \<inter> set [''CC'' @ [newline], ''C''] = {}"
  using sample_keeps_valid_new_strings[OF tiny_sample_twice] tiny_sample_twice
  by simp

text \<open>
  C7, as the code has it. \<^verbatim>\<open>sample\<close> has no handler around the oracle. Let the first
  \<open>j\<close> draws have gone through, and let the next draw complete the word \<open>word\<close>. If the
  oracle raises on \<open>word[1:]\<close>, that iteration of the \<^verbatim>\<open>for\<close> loop ends with the
  exception, and so does \<^verbatim>\<open>sample\<close>, however many draws were still to come: they are not
  made and no list is returned. If an oracle returns a false value on \<open>word[1:]\<close>, the
  counters stay as they are and the loop goes on with the next draw.
\<close>

theorem oracle_exception_propagates:
  assumes first: "sample_for model MolFromSmiles idx2word smi j (0, []) us =
                    Some (Inr ((n, ss), us1))"
    and draw: "sample_loop model idx2word ([1], ''&'') us1 = Some (Inr ((input, word), us2))"
  shows "(MolFromSmiles (drop 1 word) = Inl e \<longrightarrow>
            sample_for model MolFromSmiles idx2word smi (Suc k) (n, ss) us1 = Some (Inl e) \<and>
            sample_for model MolFromSmiles idx2word smi (j + Suc k) (0, []) us = Some (Inl e) \<and>
            sample model MolFromSmiles idx2word smi (j + Suc k) us = Some (Inl e)) \<and>
         (M2 (drop 1 word) = Inr False \<longrightarrow>
            sample_for model M2 idx2word smi (Suc k) (n2, ss2) us1 =
              sample_for model M2 idx2word smi k (n2, ss2) us2)"
proof -
  have 1: "sample_for model MolFromSmiles idx2word smi (Suc k) (n, ss) us1 = Some (Inl e)"
    if "MolFromSmiles (drop 1 word) = Inl e"
    using draw that by simp
  have 2: "sample_for model MolFromSmiles idx2word smi (j + Suc k) (0, []) us = Some (Inl e)"
    if "MolFromSmiles (drop 1 word) = Inl e"
    unfolding sample_for_add[of model MolFromSmiles idx2word smi j "Suc k"] first
    using 1[OF that] by simp
  have 3: "sample model MolFromSmiles idx2word smi (j + Suc k) us = Some (Inl e)"
    if "MolFromSmiles (drop 1 word) = Inl e"
    unfolding sample_def 2[OF that] by simp
  have 4: "sample_for model M2 idx2word smi (Suc k) (n2, ss2) us1 =
              sample_for model M2 idx2word smi k (n2, ss2) us2"
    if "M2 (drop 1 word) = Inr False"
    using draw that by simp
  from 1 2 3 4 show ?thesis by blast
qed

lemma tiny_first_draw_kept:
  "sample_for (GEN_forward tiny_gen None) picky_oracle tiny_vocab [] 1 (0, [])
     (1 / 10 # 9 / 10 # us) = Some (Inr ((1, [''C'' @ [newline]]), us))"
  by (simp add: tiny_loop_two picky_oracle_def newline_def)

theorem oracle_exception_propagates_witness:
  "sample_for (GEN_forward tiny_gen None) picky_oracle tiny_vocab [] 1 (0, [])
     [1 / 10, 9 / 10, 9 / 10, 9 / 10] = Some (Inr ((1, [''C'' @ [newline]]), [9 / 10, 9 / 10])) \<and>
   sample_loop (GEN_forward tiny_gen None) tiny_vocab ([1], ''&'') [9 / 10, 9 / 10] =
     Some (Inr (([1, 2], ''&'' @ [newline]), [9 / 10])) \<and>
   picky_oracle (drop 1 (''&'' @ [newline])) = Inl OracleError \<and>
   sample_for (GEN_forward tiny_gen None) picky_oracle tiny_vocab [] (Suc 1)
     (1, [''C'' @ [newline]]) [9 / 10, 9 / 10] = Some (Inl OracleError) \<and>
   sample (GEN_forward tiny_gen None) picky_oracle tiny_vocab [] (1 + Suc 1)
     [1 / 10, 9 / 10, 9 / 10, 9 / 10] = Some (Inl OracleError) \<and>
   rejecting_oracle (drop 1 (''&'' @ [newline])) = Inr False \<and>
   sample_for (GEN_forward tiny_gen None) rejecting_oracle tiny_vocab [] (Suc 1)
     (1, [''C'' @ [newline]]) [9 / 10, 9 / 10] =
   sample_for (GEN_forward tiny_gen None) rejecting_oracle tiny_vocab [] 1
     (1, [''C'' @ [newline]]) [9 / 10]"
proof -
  have l: "sample_loop (GEN_forward tiny_gen None) tiny_vocab ([1], ''&'') [9 / 10, 9 / 10] =
     Some (Inr (([1, 2], ''&'' @ [newline]), [9 / 10]))"
    using tiny_loop[of "[9 / 10]"] by simp
  have p: "picky_oracle (drop 1 (''&'' @ [newline])) = Inl OracleError"
    by (simp add: picky_oracle_def)
  have q: "rejecting_oracle (drop 1 (''&'' @ [newline])) = Inr False"
    by (simp add: rejecting_oracle_def)
  from oracle_exception_propagates[OF tiny_first_draw_kept l,
      where e = OracleError and k = 1 and ?M2.0 = rejecting_oracle and ?n2.0 = 1
        and ?ss2.0 = "[''C'' @ [newline]]"] p q
    tiny_first_draw_kept[of "[9 / 10, 9 / 10]"] l
  show ?thesis by simp
qed

text \<open>
  The claim C7 as stated fails: with an oracle that raises, the first completed draw
  ends \<^verbatim>\<open>sample\<close> with the exception, where catching it would have given the empty
  list and the validity rate 0.
\<close>

theorem oracle_exception_counterexample:
  "sample (GEN_forward tiny_gen None) raising_oracle tiny_vocab [] 1 [9 / 10] =
     Some (Inl OracleError) \<and>
   sample (GEN_forward tiny_gen None) (caught raising_oracle) tiny_vocab [] 1 [9 / 10] =
     Some (Inr ([], 0))"
  by (simp add: sample_def tiny_loop raising_oracle_def caught_def)





subsection \<open>The gated residual block\<close>

lemma width_rect: "rect x c l \<Longrightarrow> 0 < c \<Longrightarrow> width x = l"
  by (cases x) (auto simp: rect_def width_def)

lemma rect_nth: "rect x c l \<Longrightarrow> i < c \<Longrightarrow> length (x ! i) = l"
  by (auto simp: rect_def list_all_length)

lemma rect_map_map [simp]: "rect (map (\<lambda>i. map (f i) [0..<l]) [0..<c]) c l"
  by (simp add: rect_def list_all_iff)

lemma rect_eq_map:
  assumes "rect x c l"
  shows "x = map (\<lambda>i. map (\<lambda>t. x ! i ! t) [0..<l]) [0..<c]"
  using assms by (auto simp: rect_def list_all_length intro!: nth_equalityI)

lemma Conv1d_forward_causal:
  assumes "length x = in_channels cv" and "conv_stride cv = 1"
    and "conv_padding cv = (kernel_size cv - 1) * conv_dilation cv" and "0 < width x"
  shows "Conv1d_forward cv x =
           Inr (map (\<lambda>oc. map (conv_out cv x oc) [0..<width x + conv_padding cv]) [0..<out_channels cv])"
proof -
  define p where "p = conv_padding cv"
  have span: "conv_dilation cv * (kernel_size cv - 1) + 1 = p + 1"
    using assms(3) by (simp add: p_def mult.commute)
  have n: "(width x + 2 * p - (p + 1)) div 1 + 1 = width x + p" using assms(4) by simp
  have ok: "\<not> width x + 2 * p < p + 1" using assms(4) by simp
  show ?thesis
    unfolding Conv1d_forward_def Let_def span p_def[symmetric] assms(2) n
    using assms(1) ok by (simp del: upt_Suc)
qed

lemma glu_even:
  "glu (map (\<lambda>oc. map (f oc) [0..<l]) [0..<n * 2]) =
     Inr (map (\<lambda>c. map (\<lambda>t. f c t * sigmoid (f (c + n) t)) [0..<l]) [0..<n])"
proof -
  have "map2 (map2 (\<lambda>a b. a * sigmoid b)) (map (\<lambda>oc. map (f oc) [0..<l]) [0..<n])
          (map (\<lambda>oc. map (f oc) [0..<l]) [n..<n * 2])
        = map (\<lambda>c. map (\<lambda>t. f c t * sigmoid (f (c + n) t)) [0..<l]) [0..<n]"
    by (rule nth_equalityI) (auto intro!: nth_equalityI simp: add.commute)
  then show ?thesis
    by (simp add: glu_def take_map drop_map take_upt drop_upt)
qed

lemma tensor_add_rect:
  assumes "rect a c l" and "rect b c l"
  shows "tensor_add a b = Inr (map (\<lambda>i. map (\<lambda>t. a ! i ! t + b ! i ! t) [0..<l]) [0..<c])"
proof (cases "c = 0")
  case True
  with assms show ?thesis by (simp add: tensor_add_def rect_def bdim_def width_def)
next
  case False
  then have w: "width a = l" "width b = l" and len: "length a = c" "length b = c"
    using assms width_rect[of a c l] width_rect[of b c l] by (auto simp: rect_def)
  show ?thesis
    unfolding tensor_add_def w len by (auto simp: bdim_def)
qed

lemma trim_rows:
  assumes "0 < p"
  shows "map (slice_to_neg p) (map (\<lambda>oc. map (f oc) [0..<l + p]) cs) = map (\<lambda>oc. map (f oc) [0..<l]) cs"
  using assms by (simp add: slice_to_neg_def take_map take_upt)

lemma dropout_forward_map:
  "dropout_forward p m (map (\<lambda>c. map (f c) [0..<l]) [0..<n]) =
     map (\<lambda>c. map (\<lambda>t. dropout_at p m c t (f c t)) [0..<l]) [0..<n]"
  by (cases m) (auto simp: dropout_forward_def dropout_at_def)

lemma gated_causal:
  fixes n_outputs :: nat and dropout_p :: real and ps :: layer_params
  assumes k: "3 \<le> ksize" and d: "0 < dil" and n: "0 < n_inputs" and l: "0 < l"
    and x: "rect x n_inputs l"
  defines "cl \<equiv> ConvLayer_init n_inputs n_outputs ksize 1 dil ((ksize - 1) * dil) dropout_p ps"
  shows "Conv1d_forward (conv cl) x =
           Inr (map (\<lambda>oc. map (conv_out (conv cl) x oc) [0..<l + (ksize - 1) * dil]) [0..<n_outputs * 2])"
    and "gated cl x =
           Inr (map (\<lambda>c. map (\<lambda>t. conv_out (conv cl) x c t *
                                  sigmoid (conv_out (conv cl) x (c + n_outputs) t)) [0..<l])
                  [0..<n_outputs])"
proof -
  have w: "width x = l" using width_rect[OF x n] .
  have len: "length x = n_inputs" using x by (simp add: rect_def)
  have p: "0 < (ksize - 1) * dil" and ne: "dil \<noteq> (ksize - 1) * dil"
    using k d by (auto simp: )
  show c: "Conv1d_forward (conv cl) x =
           Inr (map (\<lambda>oc. map (conv_out (conv cl) x oc) [0..<l + (ksize - 1) * dil]) [0..<n_outputs * 2])"
    using Conv1d_forward_causal[of x "conv cl"] w len l
    by (simp add: cl_def ConvLayer_init_def)
  have dp: "dilation cl = dil" "padding cl = (ksize - 1) * dil"
    by (simp_all add: cl_def ConvLayer_init_def)
  show "gated cl x =
           Inr (map (\<lambda>c. map (\<lambda>t. conv_out (conv cl) x c t *
                                  sigmoid (conv_out (conv cl) x (c + n_outputs) t)) [0..<l])
                  [0..<n_outputs])"
    unfolding gated_def c bindE_def sum.case dp if_P[OF ne] trim_rows[OF p] glu_even ..
qed


lemma ConvLayer_forward_causal:
  fixes n_outputs :: nat and dropout_p :: real and ps :: layer_params
  assumes k: "3 \<le> ksize" and d: "0 < dil" and n: "0 < n_inputs" and l: "0 < l"
    and x: "rect x n_inputs l"
  defines "cl \<equiv> ConvLayer_init n_inputs n_outputs ksize 1 dil ((ksize - 1) * dil) dropout_p ps"
  shows "ConvLayer_forward cl m x = Inr (map (\<lambda>c. map (block_at cl m x c) [0..<l]) [0..<n_outputs])"
proof -
  have w: "width x = l" using width_rect[OF x n] .
  have len: "length x = n_inputs" using x by (simp add: rect_def)
  note g = gated_causal(2)[OF k d n l x, of n_outputs dropout_p ps, folded cl_def]
  have oc: "out_channels (conv cl) div 2 = n_outputs" by (simp add: cl_def ConvLayer_init_def)
  define G where "G = (\<lambda>c t. dropout_at (dropout cl) m c t (conv_out (conv cl) x c t *
                                  sigmoid (conv_out (conv cl) x (c + n_outputs) t)))"
  define R where "R = (\<lambda>c t. case trans' cl of None \<Rightarrow> x ! c ! t | Some tr \<Rightarrow> conv_out tr x c t)"
  have dr: "dropout_forward (dropout cl) m
              (map (\<lambda>c. map (\<lambda>t. conv_out (conv cl) x c t *
                                  sigmoid (conv_out (conv cl) x (c + n_outputs) t)) [0..<l])
                  [0..<n_outputs]) = map (\<lambda>c. map (G c) [0..<l]) [0..<n_outputs]"
    unfolding G_def by (rule dropout_forward_map)
  have res: "(case trans' cl of None \<Rightarrow> Inr x | Some tr \<Rightarrow> Conv1d_forward tr x) =
               Inr (map (\<lambda>c. map (R c) [0..<l]) [0..<n_outputs])"
  proof (cases "n_inputs = n_outputs")
    case True
    then have tn: "trans' cl = None" by (simp add: cl_def ConvLayer_init_def)
    have "x = map (\<lambda>c. map (\<lambda>t. x ! c ! t) [0..<l]) [0..<n_outputs]"
      using rect_eq_map[OF x] True by simp
    then show ?thesis unfolding R_def tn by simp
  next
    case False
    define tr where "tr = \<lparr> in_channels = n_inputs, out_channels = n_outputs, kernel_size = 1,
                             conv_stride = 1, conv_padding = 0, conv_dilation = 1,
                             conv_weight = trans_w ps, conv_bias = trans_b ps \<rparr>"
    have ts: "trans' cl = Some tr" using False by (simp add: cl_def ConvLayer_init_def tr_def)
    have "Conv1d_forward tr x =
           Inr (map (\<lambda>oc. map (conv_out tr x oc) [0..<width x + conv_padding tr]) [0..<out_channels tr])"
      by (rule Conv1d_forward_causal) (simp_all add: tr_def len w l)
    then show ?thesis unfolding R_def ts by (simp add: tr_def w)
  qed
  have "ConvLayer_forward cl m x =
          tensor_add (map (\<lambda>c. map (G c) [0..<l]) [0..<n_outputs]) (map (\<lambda>c. map (R c) [0..<l]) [0..<n_outputs])"
    unfolding ConvLayer_forward_def g res bindE_def sum.case dr ..
  also have "\<dots> = Inr (map (\<lambda>c. map (\<lambda>t. G c t + R c t) [0..<l]) [0..<n_outputs])"
    by (subst tensor_add_rect[of _ n_outputs l]) (auto intro!: rect_map_map)
  also have "(\<lambda>c. map (\<lambda>t. G c t + R c t) [0..<l]) = (\<lambda>c. map (block_at cl m x c) [0..<l])"
    by (simp add: block_at_def G_def R_def oc fun_eq_iff)
  finally show ?thesis .
qed


text \<open>
  C1, as the code has it. For a kernel size of at least 3, the block with stride 1,
  dilation \<open>dil\<close> and padding \<open>(ksize - 1) * dil\<close> maps an input of shape
  \<open>(n_inputs, l)\<close> to an output of shape \<open>(n_outputs, l)\<close>, in both modes: the convolution
  gives rows of length \<open>l\<close> plus the padding, and they are cut back to \<open>l\<close> before the
  gate.
\<close>

theorem ConvLayer_keeps_length:
  fixes n_outputs :: nat and dropout_p :: real and ps :: layer_params
  assumes k: "3 \<le> ksize" and d: "0 < dil" and n: "0 < n_inputs" and l: "0 < l"
    and x: "rect x n_inputs l"
  defines "cl \<equiv> ConvLayer_init n_inputs n_outputs ksize 1 dil ((ksize - 1) * dil) dropout_p ps"
  shows "\<exists>y out. Conv1d_forward (conv cl) x = Inr y \<and>
           rect y (n_outputs * 2) (l + (ksize - 1) * dil) \<and>
           gated cl x = glu (map (take l) y) \<and>
           ConvLayer_forward cl m x = Inr out \<and> rect out n_outputs l"
proof -
  define y where "y = map (\<lambda>oc. map (conv_out (conv cl) x oc) [0..<l + (ksize - 1) * dil]) [0..<n_outputs * 2]"
  have c: "Conv1d_forward (conv cl) x = Inr y"
    unfolding y_def cl_def by (rule gated_causal(1)[OF k d n l x])
  have r: "rect y (n_outputs * 2) (l + (ksize - 1) * dil)"
    unfolding y_def by (rule rect_map_map)
  have p: "0 < (ksize - 1) * dil" and ne: "dil \<noteq> (ksize - 1) * dil"
    using k d by auto
  have dp: "dilation cl = dil" "padding cl = (ksize - 1) * dil"
    by (simp_all add: cl_def ConvLayer_init_def)
  have s: "map (slice_to_neg ((ksize - 1) * dil)) y = map (take l) y"
    using p by (simp add: y_def slice_to_neg_def)
  have g: "gated cl x = glu (map (take l) y)"
    unfolding gated_def c bindE_def sum.case dp if_P[OF ne] s ..
  have f: "ConvLayer_forward cl m x = Inr (map (\<lambda>c. map (block_at cl m x c) [0..<l]) [0..<n_outputs])"
    unfolding cl_def by (rule ConvLayer_forward_causal[OF k d n l x])
  show ?thesis
    using c r g f rect_map_map by blast
qed

theorem ConvLayer_keeps_length_witness:
  "(3 :: nat) \<le> 3 \<and> (0 :: nat) < 1 \<and> rect [[0, 0 :: real]] 1 2 \<and>
   (\<exists>y out. Conv1d_forward (conv (ConvLayer_init 1 1 3 1 1 ((3 - 1) * 1) (1 / 5) (tiny_layer 0))) [[0, 0]] = Inr y \<and>
      rect y (1 * 2) (2 + (3 - 1) * 1) \<and>
      gated (ConvLayer_init 1 1 3 1 1 ((3 - 1) * 1) (1 / 5) (tiny_layer 0)) [[0, 0]] = glu (map (take 2) y) \<and>
      ConvLayer_forward (ConvLayer_init 1 1 3 1 1 ((3 - 1) * 1) (1 / 5) (tiny_layer 0)) None [[0, 0]] = Inr out \<and>
      rect out 1 2)"
  using ConvLayer_keeps_length[of 3 1 1 2 "[[0, 0]]" 1 "1 / 5" "tiny_layer 0" None]
  by (simp add: rect_def)

text \<open>
  The claim C1 as stated fails for the kernel sizes 2 and 1. For kernel size 2 the padding
  equals the dilation, nothing is cut, and the addition of the input fails on an input of
  length 2 and gives length 2 for an input of length 1. For kernel size 1 the padding is 0,
  the slice \<^verbatim>\<open>[:-0]\<close> is empty, and the addition fails.
\<close>

theorem ConvLayer_length_counterexample:
  "ConvLayer_forward
     (ConvLayer_init 1 1 2 1 1 ((2 - 1) * 1) (1 / 5)
        \<lparr> conv_w = [[[0, 0]], [[0, 0]]], conv_b = [0, 0], trans_w = [], trans_b = [] \<rparr>)
     None [[0, 0]] = Inl RuntimeError \<and>
   ConvLayer_forward
     (ConvLayer_init 1 1 2 1 1 ((2 - 1) * 1) (1 / 5)
        \<lparr> conv_w = [[[0, 0]], [[0, 0]]], conv_b = [0, 0], trans_w = [], trans_b = [] \<rparr>)
     None [[0]] = Inr [[0, 0]] \<and>
   ConvLayer_forward
     (ConvLayer_init 1 1 1 1 1 ((1 - 1) * 1) (1 / 5)
        \<lparr> conv_w = [[[0]], [[0]]], conv_b = [0, 0], trans_w = [], trans_b = [] \<rparr>)
     None [[0, 0]] = Inl RuntimeError"
  by (simp add: ConvLayer_forward_def ConvLayer_init_def gated_def Conv1d_forward_def conv_out_def
      pad_def glu_def slice_to_neg_def tensor_add_def bdim_def dropout_forward_def width_def
      Let_def bindE_def eval_nat_numeral)

text \<open>
  C8. With equal channel counts the block has no projection, and its output in inference
  mode is the gated convolution plus the input itself: element by element in the causal
  configuration. With different channel counts the input goes through the 1x1
  convolution before the addition.
\<close>

theorem ConvLayer_residual:
  fixes strd :: nat
  shows
  "trans' (ConvLayer_init n n ksize strd dil padd dropout_p ps) = None \<and>
   ConvLayer_forward (ConvLayer_init n n ksize strd dil padd dropout_p ps) None x =
     bindE (gated (ConvLayer_init n n ksize strd dil padd dropout_p ps) x) (\<lambda>g. tensor_add g x) \<and>
   (3 \<le> ksize \<and> 0 < dil \<and> 0 < n \<and> 0 < l \<and> rect x n l \<longrightarrow>
      ConvLayer_forward (ConvLayer_init n n ksize 1 dil ((ksize - 1) * dil) dropout_p ps) None x =
        Inr (map (\<lambda>c. map (\<lambda>t.
               conv_out (conv (ConvLayer_init n n ksize 1 dil ((ksize - 1) * dil) dropout_p ps)) x c t *
               sigmoid (conv_out (conv (ConvLayer_init n n ksize 1 dil ((ksize - 1) * dil) dropout_p ps)) x (c + n) t) +
               x ! c ! t) [0..<l]) [0..<n])) \<and>
   (n_inputs \<noteq> n_outputs \<longrightarrow>
      ConvLayer_forward (ConvLayer_init n_inputs n_outputs ksize strd dil padd dropout_p ps2) None x2 =
        bindE (gated (ConvLayer_init n_inputs n_outputs ksize strd dil padd dropout_p ps2) x2) (\<lambda>g.
        bindE (Conv1d_forward
                 \<lparr> in_channels = n_inputs, out_channels = n_outputs, kernel_size = 1,
                   conv_stride = 1, conv_padding = 0, conv_dilation = 1,
                   conv_weight = trans_w ps2, conv_bias = trans_b ps2 \<rparr> x2) (\<lambda>x'.
          tensor_add g x')))"
proof -
  have 1: "trans' (ConvLayer_init n n ksize strd dil padd dropout_p ps) = None"
    by (simp add: ConvLayer_init_def)
  have 2: "ConvLayer_forward (ConvLayer_init n n ksize strd dil padd dropout_p ps) None x =
     bindE (gated (ConvLayer_init n n ksize strd dil padd dropout_p ps) x) (\<lambda>g. tensor_add g x)"
    unfolding ConvLayer_forward_def 1 by (simp add: dropout_forward_def)
  have 3: "ConvLayer_forward (ConvLayer_init n n ksize 1 dil ((ksize - 1) * dil) dropout_p ps) None x =
        Inr (map (\<lambda>c. map (\<lambda>t.
               conv_out (conv (ConvLayer_init n n ksize 1 dil ((ksize - 1) * dil) dropout_p ps)) x c t *
               sigmoid (conv_out (conv (ConvLayer_init n n ksize 1 dil ((ksize - 1) * dil) dropout_p ps)) x (c + n) t) +
               x ! c ! t) [0..<l]) [0..<n])"
    if "3 \<le> ksize" "0 < dil" "0 < n" "0 < l" "rect x n l"
    unfolding ConvLayer_forward_causal[OF that]
    by (simp add: block_at_def dropout_at_def ConvLayer_init_def)
  have 4: "ConvLayer_forward (ConvLayer_init n_inputs n_outputs ksize strd dil padd dropout_p ps2) None x2 =
        bindE (gated (ConvLayer_init n_inputs n_outputs ksize strd dil padd dropout_p ps2) x2) (\<lambda>g.
        bindE (Conv1d_forward
                 \<lparr> in_channels = n_inputs, out_channels = n_outputs, kernel_size = 1,
                   conv_stride = 1, conv_padding = 0, conv_dilation = 1,
                   conv_weight = trans_w ps2, conv_bias = trans_b ps2 \<rparr> x2) (\<lambda>x'.
          tensor_add g x'))"
    if "n_inputs \<noteq> n_outputs"
  proof -
    have t: "trans' (ConvLayer_init n_inputs n_outputs ksize strd dil padd dropout_p ps2) =
      Some \<lparr> in_channels = n_inputs, out_channels = n_outputs, kernel_size = 1,
                   conv_stride = 1, conv_padding = 0, conv_dilation = 1,
                   conv_weight = trans_w ps2, conv_bias = trans_b ps2 \<rparr>"
      using that by (simp add: ConvLayer_init_def)
    show ?thesis unfolding ConvLayer_forward_def t by (simp add: dropout_forward_def)
  qed
  from 1 2 3 4 show ?thesis by blast
qed

theorem ConvLayer_residual_witness:
  "(3 :: nat) \<le> 3 \<and> (0 :: nat) < 1 \<and> rect [[0, 0 :: real]] 1 2 \<and> (1 :: nat) \<noteq> 2 \<and>
   trans' (ConvLayer_init 1 1 3 1 1 4 (1 / 5) (tiny_layer 0)) = None \<and>
   ConvLayer_forward (ConvLayer_init 1 1 3 1 1 4 (1 / 5) (tiny_layer 0)) None [[0, 0]] =
     bindE (gated (ConvLayer_init 1 1 3 1 1 4 (1 / 5) (tiny_layer 0)) [[0, 0]])
       (\<lambda>g. tensor_add g [[0, 0]]) \<and>
   ConvLayer_forward (ConvLayer_init 1 1 3 1 1 ((3 - 1) * 1) (1 / 5) (tiny_layer 0)) None [[0, 0]] =
     Inr (map (\<lambda>c. map (\<lambda>t.
            conv_out (conv (ConvLayer_init 1 1 3 1 1 ((3 - 1) * 1) (1 / 5) (tiny_layer 0))) [[0, 0]] c t *
            sigmoid (conv_out (conv (ConvLayer_init 1 1 3 1 1 ((3 - 1) * 1) (1 / 5) (tiny_layer 0))) [[0, 0]] (c + 1) t) +
            [[0, 0]] ! c ! t) [0..<2]) [0..<1]) \<and>
   ConvLayer_forward (ConvLayer_init 1 2 3 1 1 4 (1 / 5) wide_layer) None [[0, 0]] =
     bindE (gated (ConvLayer_init 1 2 3 1 1 4 (1 / 5) wide_layer) [[0, 0]]) (\<lambda>g.
     bindE (Conv1d_forward
              \<lparr> in_channels = 1, out_channels = 2, kernel_size = 1,
                conv_stride = 1, conv_padding = 0, conv_dilation = 1,
                conv_weight = trans_w wide_layer, conv_bias = trans_b wide_layer \<rparr> [[0, 0]]) (\<lambda>x'.
       tensor_add g x'))"
  using ConvLayer_residual[of 1 3 1 1 4 "1 / 5" "tiny_layer 0" "[[0, 0]]" 2 1 2 wide_layer "[[0, 0]]"]
  by (simp add: rect_def)

subsection \<open>Causality\<close>

lemma pad_nth_left: "s < p \<Longrightarrow> pad p r ! s = 0"
  by (simp add: pad_def nth_append)

lemma pad_nth_mid: "p \<le> s \<Longrightarrow> s - p < length r \<Longrightarrow> pad p r ! s = r ! (s - p)"
  by (simp add: pad_def nth_append)

lemma take_eq_nth: "take n r = take n s \<Longrightarrow> t < n \<Longrightarrow> r ! t = s ! t"
  by (metis nth_take)

lemma sum_list_upt_cong:
  "(\<And>i. i < n \<Longrightarrow> f i = g i) \<Longrightarrow> (\<Sum>i\<leftarrow>[0..<n]. f i) = (\<Sum>i\<leftarrow>[0..<n]. (g i :: real))"
  by (rule arg_cong[where f = sum_list]) simp

lemma conv_out_agree:
  assumes s: "conv_stride cv = 1"
    and p: "conv_padding cv = (kernel_size cv - 1) * conv_dilation cv"
    and a: "\<And>i. i < in_channels cv \<Longrightarrow>
              take n (x ! i) = take n (y ! i) \<and> t < length (x ! i) \<and> t < length (y ! i)"
    and t: "t < n"
  shows "conv_out cv x oc t = conv_out cv y oc t"
proof -
  have e: "pad (conv_padding cv) (x ! i) ! (t * conv_stride cv + j * conv_dilation cv) =
           pad (conv_padding cv) (y ! i) ! (t * conv_stride cv + j * conv_dilation cv)"
    if i: "i < in_channels cv" and j: "j < kernel_size cv" for i j
  proof -
    define q where "q = t + j * conv_dilation cv"
    have "j \<le> kernel_size cv - 1" using j by simp
    then have "j * conv_dilation cv \<le> conv_padding cv"
      unfolding p by (rule mult_le_mono1)
    then have le: "q - conv_padding cv \<le> t" by (simp add: q_def)
    show ?thesis
    proof (cases "q < conv_padding cv")
      case True
      then show ?thesis by (simp add: s q_def pad_nth_left)
    next
      case False
      then have ge: "conv_padding cv \<le> q" by simp
      from a[OF i] le have "q - conv_padding cv < length (x ! i)" "q - conv_padding cv < length (y ! i)"
        by auto
      moreover have "x ! i ! (q - conv_padding cv) = y ! i ! (q - conv_padding cv)"
        using a[OF i] le t by (auto intro: take_eq_nth)
      ultimately show ?thesis
        using ge by (simp add: s q_def[symmetric] pad_nth_mid)
    qed
  qed
  show ?thesis
    unfolding conv_out_def
    by (auto intro!: sum_list_upt_cong simp: e)
qed

lemma agree_upto_nth:
  "agree_upto n x y = (length x = length y \<and> (\<forall>i<length x. take n (x ! i) = take n (y ! i)))"
  by (auto simp: agree_upto_def list_all_length)

lemma agree_upto_refl: "agree_upto n x x"
  by (simp add: agree_upto_nth)

lemma block_at_agree:
  fixes n_outputs dil :: nat and dropout_p :: real and ps :: layer_params
  assumes k: "3 \<le> ksize"
    and x: "rect x n_inputs lx" and y: "rect y n_inputs ly"
    and a: "agree_upto n x y" and t: "t < n" "t < lx" "t < ly" and c: "c < n_outputs"
  defines "cl \<equiv> ConvLayer_init n_inputs n_outputs ksize 1 dil ((ksize - 1) * dil) dropout_p ps"
  shows "block_at cl m x c t = block_at cl m y c t"
proof -
  have r: "take n (x ! i) = take n (y ! i) \<and> t < length (x ! i) \<and> t < length (y ! i)"
    if "i < n_inputs" for i
    using that a x y t by (auto simp: agree_upto_nth rect_def list_all_length)
  have 1: "conv_out (conv cl) x oc t = conv_out (conv cl) y oc t" for oc
    by (rule conv_out_agree[where n = n]) (auto simp: cl_def ConvLayer_init_def r t)
  have 2: "(case trans' cl of None \<Rightarrow> x ! c ! t | Some tr \<Rightarrow> conv_out tr x c t) =
           (case trans' cl of None \<Rightarrow> y ! c ! t | Some tr \<Rightarrow> conv_out tr y c t)"
  proof (cases "n_inputs = n_outputs")
    case True
    then have "trans' cl = None" by (simp add: cl_def ConvLayer_init_def)
    moreover have "x ! c ! t = y ! c ! t"
      using r[of c] c True t by (auto intro: take_eq_nth)
    ultimately show ?thesis by simp
  next
    case False
    define tr where "tr = \<lparr> in_channels = n_inputs, out_channels = n_outputs, kernel_size = 1,
                             conv_stride = 1, conv_padding = 0, conv_dilation = 1,
                             conv_weight = trans_w ps, conv_bias = trans_b ps \<rparr>"
    have ts: "trans' cl = Some tr" using False by (simp add: cl_def ConvLayer_init_def tr_def)
    have "conv_out tr x c t = conv_out tr y c t"
      by (rule conv_out_agree[where n = n]) (auto simp: tr_def r t)
    then show ?thesis by (simp add: ts)
  qed
  show ?thesis unfolding block_at_def 1 2 ..
qed

lemma agree_upto_min:
  assumes "agree_upto n x y" "rect x c lx" "rect y c ly" "0 < c"
  shows "min n lx = min n ly"
proof -
  have "take n (x ! 0) = take n (y ! 0)" "length (x ! 0) = lx" "length (y ! 0) = ly"
    using assms by (auto simp: agree_upto_nth rect_def list_all_length)
  then show ?thesis by (metis length_take min.commute)
qed

lemma take_upt_min: "take n [0..<l] = [0..<min n l]"
  by (cases "n \<le> l") (simp_all add: min_def)

lemma ConvLayer_agree:
  fixes n_outputs :: nat and dropout_p :: real and ps :: layer_params
  assumes k: "3 \<le> ksize" and d: "0 < dil" and ni: "0 < n_inputs"
    and lx: "0 < lx" and ly: "0 < ly"
    and x: "rect x n_inputs lx" and y: "rect y n_inputs ly"
    and a: "agree_upto n x y"
  defines "cl \<equiv> ConvLayer_init n_inputs n_outputs ksize 1 dil ((ksize - 1) * dil) dropout_p ps"
  shows "\<exists>ox oy. ConvLayer_forward cl m x = Inr ox \<and> ConvLayer_forward cl m y = Inr oy \<and>
           rect ox n_outputs lx \<and> rect oy n_outputs ly \<and> agree_upto n ox oy"
proof -
  define ox where "ox = map (\<lambda>c. map (block_at cl m x c) [0..<lx]) [0..<n_outputs]"
  define oy where "oy = map (\<lambda>c. map (block_at cl m y c) [0..<ly]) [0..<n_outputs]"
  have fx: "ConvLayer_forward cl m x = Inr ox"
    unfolding ox_def cl_def by (rule ConvLayer_forward_causal[OF k d ni lx x])
  have fy: "ConvLayer_forward cl m y = Inr oy"
    unfolding oy_def cl_def by (rule ConvLayer_forward_causal[OF k d ni ly y])
  have mn: "min n lx = min n ly" by (rule agree_upto_min[OF a x y ni])
  have "take n (ox ! c) = take n (oy ! c)" if c: "c < n_outputs" for c
  proof -
    have b: "block_at cl m x c t = block_at cl m y c t" if "t < min n lx" for t
    proof -
      from that mn have "t < n" "t < lx" "t < ly" by auto
      then show ?thesis unfolding cl_def by (rule block_at_agree[OF k x y a _ _ _ c])
    qed
    have "take n (ox ! c) = map (block_at cl m x c) [0..<min n lx]"
      using c by (simp add: ox_def take_map take_upt_min)
    also have "\<dots> = map (block_at cl m y c) [0..<min n lx]"
      by (rule map_cong[OF refl]) (simp add: b)
    also have "\<dots> = take n (oy ! c)"
      using c by (simp add: oy_def take_map take_upt_min mn)
    finally show ?thesis .
  qed
  then have "agree_upto n ox oy" by (simp add: agree_upto_nth ox_def oy_def)
  moreover have "rect ox n_outputs lx" "rect oy n_outputs ly"
    unfolding ox_def oy_def by (rule rect_map_map)+
  ultimately show ?thesis using fx fy by blast
qed


lemma Sequential_forward_append:
  "Sequential_forward (ls @ [l]) m i0 x =
     bindE (Sequential_forward ls m i0 x)
       (ConvLayer_forward l (map_option (\<lambda>r. r (i0 + length ls)) m))"
  by (induction ls arbitrary: i0 x) (auto simp: bindE_def split: sum.splits)

lemma GenEncoder_network_Suc:
  "network (GenEncoder_init input_size hid_size (Suc n) ksize dropout_p ps) =
     network (GenEncoder_init input_size hid_size n ksize dropout_p ps) @
     [ConvLayer_init (if n = 0 then input_size else hid_size) hid_size ksize 1 (2 ^ n)
        ((ksize - 1) * 2 ^ n) dropout_p (ps n)]"
  by (simp add: GenEncoder_init_def Let_def)

lemma GenEncoder_network_length:
  "length (network (GenEncoder_init input_size hid_size n ksize dropout_p ps)) = n"
  by (simp add: GenEncoder_init_def)

lemma encoder_agree:
  assumes k: "3 \<le> ksize" and ni: "0 < input_size" and nh: "0 < hid_size"
    and lx: "0 < lx" and ly: "0 < ly"
    and x: "rect x input_size lx" and y: "rect y input_size ly"
    and a: "agree_upto i x y"
  shows "\<exists>ox oy.
           Sequential_forward (network (GenEncoder_init input_size hid_size n ksize dropout_p ps)) m i0 x = Inr ox \<and>
           Sequential_forward (network (GenEncoder_init input_size hid_size n ksize dropout_p ps)) m i0 y = Inr oy \<and>
           rect ox (if n = 0 then input_size else hid_size) lx \<and>
           rect oy (if n = 0 then input_size else hid_size) ly \<and> agree_upto i ox oy"
proof (induction n)
  case 0
  show ?case using x y a by (simp add: GenEncoder_init_def)
next
  case (Suc n)
  then obtain ox oy where
    fx: "Sequential_forward (network (GenEncoder_init input_size hid_size n ksize dropout_p ps)) m i0 x = Inr ox"
    and fy: "Sequential_forward (network (GenEncoder_init input_size hid_size n ksize dropout_p ps)) m i0 y = Inr oy"
    and rx: "rect ox (if n = 0 then input_size else hid_size) lx"
    and ry: "rect oy (if n = 0 then input_size else hid_size) ly"
    and ag: "agree_upto i ox oy" by blast
  have c: "0 < (if n = 0 then input_size else hid_size)" using ni nh by simp
  have d: "0 < (2 :: nat) ^ n" by simp
  from ConvLayer_agree[OF k d c lx ly rx ry ag, of hid_size dropout_p "ps n"
      "map_option (\<lambda>r. r (i0 + n)) m"]
  obtain px py where
    "ConvLayer_forward (ConvLayer_init (if n = 0 then input_size else hid_size) hid_size ksize 1 (2 ^ n)
        ((ksize - 1) * 2 ^ n) dropout_p (ps n)) (map_option (\<lambda>r. r (i0 + n)) m) ox = Inr px"
    "ConvLayer_forward (ConvLayer_init (if n = 0 then input_size else hid_size) hid_size ksize 1 (2 ^ n)
        ((ksize - 1) * 2 ^ n) dropout_p (ps n)) (map_option (\<lambda>r. r (i0 + n)) m) oy = Inr py"
    "rect px hid_size lx" "rect py hid_size ly" "agree_upto i px py" by blast
  then show ?case
    unfolding GenEncoder_network_Suc Sequential_forward_append GenEncoder_network_length fx fy
    by (simp add: bindE_def)
qed


lemma Embedding_forward_ok:
  assumes "list_all (\<lambda>t. t < num_embeddings e) toks"
  shows "Embedding_forward e toks =
           Inr (map (\<lambda>i. map (\<lambda>c. emb_weight e ! (toks ! i) ! c) [0..<embedding_dim e])
                  [0..<length toks])"
proof -
  have "\<not> list_ex (\<lambda>t. num_embeddings e \<le> t) toks"
    using assms by (auto simp: list_all_iff list_ex_iff)
  moreover have "map (\<lambda>t. map (\<lambda>c. emb_weight e ! t ! c) [0..<embedding_dim e]) toks =
      map (\<lambda>i. map (\<lambda>c. emb_weight e ! (toks ! i) ! c) [0..<embedding_dim e]) [0..<length toks]"
    by (rule nth_equalityI) auto
  ultimately show ?thesis by (simp add: Embedding_forward_def)
qed

lemma transpose12_map:
  assumes "0 < l"
  shows "transpose12 (map (\<lambda>i. map (f i) [0..<e]) [0..<l]) = map (\<lambda>c. map (\<lambda>i. f i c) [0..<l]) [0..<e]"
proof -
  have "rect (map (\<lambda>i. map (f i) [0..<e]) [0..<l]) l e" by (rule rect_map_map)
  then have w: "width (map (\<lambda>i. map (f i) [0..<e]) [0..<l]) = e"
    using assms by (rule width_rect)
  show ?thesis unfolding transpose12_def w by (auto intro!: nth_equalityI)
qed

lemma Linear_forward_ok:
  assumes "in_features l = h"
  shows "Linear_forward l (map (\<lambda>t. map (f t) [0..<h]) [0..<n]) =
           Inr (map (\<lambda>t. Linear_row l (map (f t) [0..<h])) [0..<n])"
  using assms by (auto simp: Linear_forward_def list_ex_iff)

lemma GEN_forward1_agree:
  fixes output_size :: nat and emb_dropout dropout_p :: real and ps :: GEN_params
  assumes k: "3 \<le> ksize" and ni: "0 < input_size" and nh: "0 < hid_size"
    and n0: "n_levels = 0 \<longrightarrow> input_size = hid_size"
    and xs: "xs \<noteq> []" "list_all (\<lambda>t. t < dic_size) xs"
    and ys: "ys \<noteq> []" "list_all (\<lambda>t. t < dic_size) ys"
    and a: "take i xs = take i ys"
  defines "g \<equiv> GEN_init input_size dic_size output_size hid_size n_levels ksize emb_dropout dropout_p ps"
  shows "\<exists>ox oy. GEN_forward1 g m xs = Inr ox \<and> GEN_forward1 g m ys = Inr oy \<and>
           rect ox (length xs) output_size \<and> rect oy (length ys) output_size \<and>
           take i ox = take i oy"
proof -
  define X where "X = (\<lambda>toks c t. dropout_at emb_dropout (map_option (\<lambda>r. r 0) m) t c (emb_w ps ! (toks ! t) ! c))"
  define inp where "inp = (\<lambda>toks. map (\<lambda>c. map (X toks c) [0..<length toks]) [0..<input_size])"
  have lx: "0 < length xs" and ly: "0 < length ys" using xs ys by auto
  have e: "transpose12 (dropout_forward (drop' g) (map_option (\<lambda>r. r 0) m) ex) = inp toks"
    if "Embedding_forward (emb g) toks = Inr ex" "list_all (\<lambda>t. t < dic_size) toks" "toks \<noteq> []"
    for toks ex
  proof -
    have "list_all (\<lambda>t. t < num_embeddings (emb g)) toks"
      using that(2) by (simp add: g_def GEN_init_def)
    from Embedding_forward_ok[OF this] that(1)
    have ex: "ex = map (\<lambda>i. map (\<lambda>c. emb_w ps ! (toks ! i) ! c) [0..<input_size]) [0..<length toks]"
      by (simp add: g_def GEN_init_def)
    have d: "drop' g = emb_dropout" by (simp add: g_def GEN_init_def)
    show ?thesis
      unfolding ex d dropout_forward_map
      using that(3) by (simp add: transpose12_map inp_def X_def)
  qed
  have emb_ok: "\<exists>ex. Embedding_forward (emb g) toks = Inr ex"
    if "list_all (\<lambda>t. t < dic_size) toks" for toks
    using Embedding_forward_ok[of "emb g" toks] that by (simp add: g_def GEN_init_def)
  have rx: "rect (inp xs) input_size (length xs)" and ry: "rect (inp ys) input_size (length ys)"
    unfolding inp_def by (rule rect_map_map)+
  have mn: "min i (length xs) = min i (length ys)"
    using a by (metis length_take min.commute)
  have ag: "agree_upto i (inp xs) (inp ys)"
  proof -
    have "take i (inp xs ! c) = take i (inp ys ! c)" if "c < input_size" for c
    proof -
      have "X xs c t = X ys c t" if "t < min i (length xs)" for t
        using that take_eq_nth[OF a, of t] by (simp add: X_def)
      then have "map (X xs c) [0..<min i (length xs)] = map (X ys c) [0..<min i (length xs)]"
        by simp
      then show ?thesis
        using that by (simp add: inp_def take_map take_upt_min mn)
    qed
    then show ?thesis by (simp add: agree_upto_nth inp_def)
  qed
  from encoder_agree[OF k ni nh lx ly rx ry ag, of n_levels dropout_p "encoder_ps ps" m 1]
  obtain hx hy where
    hx: "GenEncoder_forward (encoder g) m (inp xs) = Inr hx"
    and hy: "GenEncoder_forward (encoder g) m (inp ys) = Inr hy"
    and rhx: "rect hx hid_size (length xs)" and rhy: "rect hy hid_size (length ys)"
    and agh: "agree_upto i hx hy"
    using n0 by (auto simp: GenEncoder_forward_def g_def GEN_init_def split: if_splits)
  define out where "out = (\<lambda>h l. map (\<lambda>t. Linear_row (decoder g) (map (\<lambda>c. h ! c ! t) [0..<hid_size])) [0..<l])"
  have dec: "Linear_forward (decoder g) (transpose12 h) = Inr (out h l)"
    if "rect h hid_size l" "0 < l" for h l
  proof -
    have "transpose12 h = map (\<lambda>t. map (\<lambda>c. h ! c ! t) [0..<hid_size]) [0..<l]"
      by (subst rect_eq_map[OF that(1)]) (simp add: transpose12_map[OF nh] del: map_map)
    moreover have "in_features (decoder g) = hid_size" by (simp add: g_def GEN_init_def)
    ultimately show ?thesis unfolding out_def by (simp add: Linear_forward_ok)
  qed
  have f: "GEN_forward1 g m toks = Inr (out h (length toks))"
    if "list_all (\<lambda>t. t < dic_size) toks" "toks \<noteq> []"
      "GenEncoder_forward (encoder g) m (inp toks) = Inr h" "rect h hid_size (length toks)"
    for toks h
  proof -
    from emb_ok[OF that(1)] obtain ex where ex: "Embedding_forward (emb g) toks = Inr ex" ..
    show ?thesis
      unfolding GEN_forward1_def ex bindE_def sum.case e[OF ex that(1,2)] that(3)
      using dec[OF that(4)] that(2) by simp
  qed
  have ro: "rect (out h l) l output_size" for h l
    by (simp add: out_def rect_def list_all_iff Linear_row_def g_def GEN_init_def)
  have "take i (out hx (length xs)) = take i (out hy (length ys))"
  proof -
    have r: "map (\<lambda>c. hx ! c ! t) [0..<hid_size] = map (\<lambda>c. hy ! c ! t) [0..<hid_size]"
      if "t < min i (length xs)" for t
    proof -
      have "hx ! c ! t = hy ! c ! t" if "c < hid_size" for c
        using agh rhx that \<open>t < min i (length xs)\<close>
        by (auto simp: agree_upto_nth rect_def intro!: take_eq_nth[where n = i])
      then show ?thesis by simp
    qed
    have "map (\<lambda>t. Linear_row (decoder g) (map (\<lambda>c. hx ! c ! t) [0..<hid_size])) [0..<min i (length xs)] =
               map (\<lambda>t. Linear_row (decoder g) (map (\<lambda>c. hy ! c ! t) [0..<hid_size])) [0..<min i (length xs)]"
      by (rule map_cong[OF refl]) (simp only: r set_upt atLeastLessThan_iff)
    then show ?thesis
      by (simp add: out_def take_map take_upt_min mn)
  qed
  with f[OF xs(2,1) hx rhx] f[OF ys(2,1) hy rhy] ro show ?thesis by blast
qed


lemma GEN_forward_single:
  "GEN_forward g m [xs] = bindE (GEN_forward1 g (map_option (\<lambda>r. r 0) m) xs) (\<lambda>y. Inr [y])"
  by (simp add: GEN_forward_def)

text \<open>
  C2. The generative model with a kernel size of at least 3, in inference mode: two token
  sequences that agree at all positions before \<open>i\<close> give logits, one row per position,
  that agree at all positions before \<open>i\<close>.
\<close>

theorem GEN_causal:
  fixes output_size :: nat and emb_dropout dropout_p :: real and ps :: GEN_params
  assumes "3 \<le> ksize" and "0 < input_size" and "0 < hid_size"
    and "n_levels = 0 \<longrightarrow> input_size = hid_size"
    and "xs \<noteq> []" and "list_all (\<lambda>t. t < dic_size) xs"
    and "ys \<noteq> []" and "list_all (\<lambda>t. t < dic_size) ys"
    and "take i xs = take i ys"
  shows "\<exists>ox oy.
           GEN_forward (GEN_init input_size dic_size output_size hid_size n_levels ksize
                          emb_dropout dropout_p ps) None [xs] = Inr [ox] \<and>
           GEN_forward (GEN_init input_size dic_size output_size hid_size n_levels ksize
                          emb_dropout dropout_p ps) None [ys] = Inr [oy] \<and>
           rect ox (length xs) output_size \<and> rect oy (length ys) output_size \<and>
           take i ox = take i oy"
proof -
  from GEN_forward1_agree[OF assms, of output_size emb_dropout dropout_p ps None]
  obtain ox oy where
    "GEN_forward1 (GEN_init input_size dic_size output_size hid_size n_levels ksize
                          emb_dropout dropout_p ps) None xs = Inr ox"
    "GEN_forward1 (GEN_init input_size dic_size output_size hid_size n_levels ksize
                          emb_dropout dropout_p ps) None ys = Inr oy"
    "rect ox (length xs) output_size" "rect oy (length ys) output_size" "take i ox = take i oy"
    by blast
  then show ?thesis
    unfolding GEN_forward_single by (intro exI[of _ ox] exI[of _ oy]) simp
qed

theorem GEN_causal_witness:
  "(3 :: nat) \<le> 3 \<and> (0 :: nat) < 1 \<and> [1, 0 :: nat] \<noteq> [] \<and> [1, 2 :: nat] \<noteq> [] \<and>
   list_all (\<lambda>t. t < (3 :: nat)) [1, 0] \<and> list_all (\<lambda>t. t < (3 :: nat)) [1, 2] \<and>
   take 1 [1, 0 :: nat] = take 1 [1, 2] \<and>
   (\<exists>ox oy. GEN_forward tiny_gen None [[1, 0]] = Inr [ox] \<and>
      GEN_forward tiny_gen None [[1, 2]] = Inr [oy] \<and>
      rect ox (length [1, 0 :: nat]) 3 \<and> rect oy (length [1, 2 :: nat]) 3 \<and>
      take 1 ox = take 1 oy)"
  using GEN_causal[of 3 1 1 1 "[1, 0]" 3 "[1, 2]" 1 3 "1 / 10" "1 / 5" tiny_params]
  by (simp add: tiny_gen_def)

subsection \<open>The training loss\<close>

lemma mapE_Inr:
  assumes "\<And>x. x \<in> set xs \<Longrightarrow> f x = Inr (g x)"
  shows "mapE f xs = Inr (map g xs)"
  using assms by (induction xs) simp_all

lemma drop_concat_rows:
  assumes "list_all (\<lambda>r. length r = v) rows"
  shows "drop (i * v) (concat rows) = concat (drop i rows)"
  using assms
proof (induction rows arbitrary: i)
  case Nil
  then show ?case by simp
next
  case (Cons r rows)
  then show ?case by (cases i) simp_all
qed

lemma length_concat_rows:
  assumes "list_all (\<lambda>r. length r = v) rows"
  shows "length (concat rows) = length rows * v"
  using assms by (induction rows) simp_all

lemma view_rows_rows:
  assumes r: "list_all (\<lambda>r. length r = v) (concat output)" and v: "0 < v"
  shows "view_rows v output = Inr (concat output)"
proof -
  define rows where "rows = concat output"
  have len: "length (concat rows) = length rows * v"
    using r unfolding rows_def by (rule length_concat_rows)
  have "map (\<lambda>i. take v (drop (i * v) (concat rows))) [0..<length rows] = rows"
  proof (rule nth_equalityI)
    show "length (map (\<lambda>i. take v (drop (i * v) (concat rows))) [0..<length rows]) = length rows"
      by simp
  next
    fix i assume "i < length (map (\<lambda>i. take v (drop (i * v) (concat rows))) [0..<length rows])"
    then have i: "i < length rows" by simp
    then have d: "drop i rows = rows ! i # drop (Suc i) rows"
      by (simp add: Cons_nth_drop_Suc)
    have "length (rows ! i) = v"
      using r i unfolding rows_def[symmetric] by (simp add: list_all_length)
    then have "take v (concat (drop i rows)) = rows ! i"
      unfolding d by simp
    then show "map (\<lambda>i. take v (drop (i * v) (concat rows))) [0..<length rows] ! i = rows ! i"
      using i drop_concat_rows[OF r[folded rows_def], of i] by simp
  qed
  then show ?thesis
    using v unfolding view_rows_def rows_def[symmetric] Let_def len by simp
qed

lemma zip_concat:
  assumes "list_all2 (\<lambda>xs ys. length xs = length ys) xss yss"
  shows "zip (concat xss) (concat yss) = concat (map2 zip xss yss)"
  using assms by (induction rule: list_all2_induct) simp_all

lemma sum_list_concat_map:
  "(\<Sum>z\<leftarrow>concat zss. f z) = (\<Sum>zs\<leftarrow>zss. \<Sum>z\<leftarrow>zs. (f z :: real))"
  by (induction zss) simp_all


lemma CrossEntropyLoss_batches:
  assumes l2: "list_all2 (\<lambda>lg s. length lg = length s) logits tgts"
    and rng: "list_all (\<lambda>lg. list_all (\<lambda>row. length row = v) lg) logits"
    and tg: "list_all (\<lambda>s. list_all (\<lambda>c. c < v) s) tgts"
  shows "CrossEntropyLoss (concat logits) (concat tgts) =
           Inr ((\<Sum>(lg, s)\<leftarrow>zip logits tgts. \<Sum>(row, c)\<leftarrow>zip lg s. nll row c) /
                real (length (concat tgts)))"
proof -
  have z: "zip (concat logits) (concat tgts) = concat (map2 zip logits tgts)"
    using l2 by (rule zip_concat)
  have len: "length (concat logits) = length (concat tgts)"
    using l2 by (induction rule: list_all2_induct) simp_all
  have "\<not> list_ex (\<lambda>(row, c). length row \<le> c) (zip (concat logits) (concat tgts))"
  proof -
    have "c < length row" if "(row, c) \<in> set (zip (concat logits) (concat tgts))" for row c
    proof -
      from that have "row \<in> set (concat logits)" "c \<in> set (concat tgts)"
        by (auto dest: set_zip_leftD set_zip_rightD)
      then have "length row = v" "c < v"
        using rng tg by (auto simp: list_all_iff)
      then show ?thesis by simp
    qed
    then show ?thesis by (fastforce simp: list_ex_iff)
  qed
  moreover have "(\<Sum>(row, c)\<leftarrow>zip (concat logits) (concat tgts). nll row c) =
                 (\<Sum>(lg, s)\<leftarrow>zip logits tgts. \<Sum>(row, c)\<leftarrow>zip lg s. nll row c)"
    unfolding z sum_list_concat_map by (simp add: split_def comp_def)
  ultimately show ?thesis
    unfolding CrossEntropyLoss_def using len by simp
qed

text \<open>
  C5. For a batch of sequences of length \<open>l\<close>, the loss of \<^verbatim>\<open>train\<close> and \<^verbatim>\<open>evaluate\<close>
  runs the model on the first \<open>l - 1\<close> tokens of every sequence; the logits have shape
  \<open>(batch, l - 1, vocabulary)\<close>; and the loss is the sum, over the sequences and their
  positions, of the negative log-probability the logits give to the next token, divided
  by \<open>batch * (l - 1)\<close>. This holds in both modes of the generative model with a kernel
  size of at least 3.
\<close>

theorem batch_loss_next_token:
  fixes emb_dropout dropout_p :: real and ps :: GEN_params
  assumes k: "3 \<le> ksize" and ni: "0 < input_size" and nh: "0 < hid_size"
    and n0: "n_levels = 0 \<longrightarrow> input_size = hid_size"
    and ne: "data \<noteq> []" and l: "2 \<le> l"
    and d: "list_all (\<lambda>s. length s = l \<and> list_all (\<lambda>t. t < dic_size \<and> t < output_size) s) data"
  defines "g \<equiv> GEN_init input_size dic_size output_size hid_size n_levels ksize emb_dropout dropout_p ps"
  shows "\<exists>logits.
           GEN_forward g m (map (take (l - 1)) data) = Inr logits \<and>
           length logits = length data \<and>
           list_all (\<lambda>lg. rect lg (l - 1) output_size) logits \<and>
           batch_loss (GEN_forward g m) output_size data =
             Inr ((\<Sum>(lg, s)\<leftarrow>zip logits data. \<Sum>(row, c)\<leftarrow>zip lg (drop 1 s). nll row c) /
                  real (length data * (l - 1)))"
proof -
  define inputs where "inputs = map (take (l - 1)) data"
  define out where "out = (\<lambda>b. projr (GEN_forward1 g (map_option (\<lambda>r. r b) m) (inputs ! b)))"
  define logits where "logits = map out [0..<length data]"
  have sl: "map (slice_to_neg 1) data = inputs"
    unfolding inputs_def using d by (auto simp: slice_to_neg_def list_all_iff)
  have ob: "GEN_forward1 g (map_option (\<lambda>r. r b) m) (inputs ! b) = Inr (out b) \<and>
           rect (out b) (l - 1) output_size" if b: "b < length data" for b
  proof -
    have s: "length (data ! b) = l" "list_all (\<lambda>t. t < dic_size) (data ! b)"
      using d b by (auto simp: list_all_length)
    have i: "inputs ! b = take (l - 1) (data ! b)" using b by (simp add: inputs_def)
    have 1: "inputs ! b \<noteq> []" using s l by (auto simp: i)
    have 2: "list_all (\<lambda>t. t < dic_size) (inputs ! b)"
      using s(2) unfolding i list_all_iff by (auto dest: in_set_takeD)
    have 3: "length (inputs ! b) = l - 1" using s l by (simp add: i)
    have "take 0 (inputs ! b) = take 0 (inputs ! b)" ..
    from GEN_forward1_agree[OF k ni nh n0 1 2 1 2 this, of output_size emb_dropout dropout_p ps
        "map_option (\<lambda>r. r b) m", folded g_def]
    obtain ox where "GEN_forward1 g (map_option (\<lambda>r. r b) m) (inputs ! b) = Inr ox"
      "rect ox (l - 1) output_size" unfolding 3 by blast
    then show ?thesis unfolding out_def by simp
  qed
  have f: "GEN_forward g m inputs = Inr logits"
    unfolding GEN_forward_def logits_def
    using mapE_Inr[of "[0..<length inputs]"
        "\<lambda>b. GEN_forward1 g (map_option (\<lambda>r. r b) m) (inputs ! b)" out] ob
    by (simp add: inputs_def)
  have r: "list_all (\<lambda>lg. rect lg (l - 1) output_size) logits"
    using ob by (simp add: logits_def list_all_iff)
  have v: "0 < output_size"
  proof -
    from ne obtain s where s: "s \<in> set data" by (cases data) auto
    with d l have "s \<noteq> []" "list_all (\<lambda>t. t < output_size) s"
      by (auto simp: list_all_iff)
    then show ?thesis by (cases s) auto
  qed
  have rows: "list_all (\<lambda>lg. list_all (\<lambda>row. length row = output_size) lg) logits"
    using r by (auto simp: list_all_iff rect_def)
  have vr: "view_rows output_size logits = Inr (concat logits)"
    by (rule view_rows_rows) (use rows v in \<open>auto simp: list_all_iff\<close>)
  have l2: "list_all2 (\<lambda>lg s. length lg = length s) logits (map (drop 1) data)"
    using r d by (auto simp: list_all2_conv_all_nth logits_def list_all_length rect_def)
  have tg: "list_all (\<lambda>s. list_all (\<lambda>c. c < output_size) s) (map (drop 1) data)"
    using d by (auto simp: list_all_iff dest: in_set_dropD)
  have "list_all (\<lambda>r. length r = l - 1) (map (drop 1) data)"
    using d by (auto simp: list_all_iff)
  from length_concat_rows[OF this]
  have lt: "length (concat (map (drop 1) data)) = length data * (l - 1)" by simp
  have "batch_loss (GEN_forward g m) output_size data =
          CrossEntropyLoss (concat logits) (concat (map (drop 1) data))"
    unfolding batch_loss_def Let_def sl f bindE_def sum.case vr ..
  also have "\<dots> = Inr ((\<Sum>(lg, s)\<leftarrow>zip logits (map (drop 1) data). \<Sum>(row, c)\<leftarrow>zip lg s. nll row c) /
                real (length data * (l - 1)))"
    unfolding CrossEntropyLoss_batches[OF l2 rows tg] lt ..
  also have "(\<Sum>(lg, s)\<leftarrow>zip logits (map (drop 1) data). \<Sum>(row, c)\<leftarrow>zip lg s. nll row c) =
             (\<Sum>(lg, s)\<leftarrow>zip logits data. \<Sum>(row, c)\<leftarrow>zip lg (drop 1 s). nll row c)"
    by (simp add: zip_map2 split_def comp_def)
  finally have b: "batch_loss (GEN_forward g m) output_size data =
      Inr ((\<Sum>(lg, s)\<leftarrow>zip logits data. \<Sum>(row, c)\<leftarrow>zip lg (drop 1 s). nll row c) /
                  real (length data * (l - 1)))" .
  have "length logits = length data" by (simp add: logits_def)
  with f[unfolded inputs_def] r b show ?thesis by blast
qed


theorem batch_loss_next_token_witness:
  "(3 :: nat) \<le> 3 \<and> (0 :: nat) < 1 \<and> [[1, 2 :: nat]] \<noteq> [] \<and> (2 :: nat) \<le> 2 \<and>
   list_all (\<lambda>s. length s = 2 \<and> list_all (\<lambda>t. t < (3 :: nat) \<and> t < (3 :: nat)) s) [[1, 2 :: nat]] \<and>
   (\<exists>logits.
      GEN_forward tiny_gen None (map (take (2 - 1)) [[1, 2]]) = Inr logits \<and>
      length logits = length [[1, 2 :: nat]] \<and>
      list_all (\<lambda>lg. rect lg (2 - 1) 3) logits \<and>
      batch_loss (GEN_forward tiny_gen None) 3 [[1, 2]] =
        Inr ((\<Sum>(lg, s)\<leftarrow>zip logits [[1, 2]]. \<Sum>(row, c)\<leftarrow>zip lg (drop 1 s). nll row c) /
             real (length [[1, 2 :: nat]] * (2 - 1))))"
  using batch_loss_next_token[of 3 1 1 1 "[[1, 2]]" 2 3 3 "1 / 10" "1 / 5" tiny_params None]
  by (simp add: tiny_gen_def)

subsection \<open>One step of the sampler\<close>

lemma sum_list_take_nonneg:
  "list_all (\<lambda>p. 0 < p) ps \<Longrightarrow> 0 \<le> sum_list (take w (ps :: real list))"
  by (induction ps arbitrary: w) (auto simp: take_Cons split: nat.splits)

lemma pick_interval:
  assumes "list_all (\<lambda>p. 0 < p) ps" and "w < length ps" and "r < sum_list ps" and "0 \<le> r"
  shows "(pick ps r = w) = (sum_list (take w ps) \<le> r \<and> r < sum_list (take w ps) + ps ! w)"
  using assms
proof (induction ps arbitrary: w r)
  case Nil
  then show ?case by simp
next
  case (Cons p qs)
  have pos: "list_all (\<lambda>p. 0 < p) qs" and p: "0 < p" using Cons.prems(1) by auto
  show ?case
  proof (cases "r < p")
    case True
    show ?thesis
    proof (cases w)
      case 0
      with True Cons.prems(4) show ?thesis by simp
    next
      case (Suc w')
      have "0 \<le> sum_list (take w' qs)" using pos by (rule sum_list_take_nonneg)
      with True Suc show ?thesis by simp
    qed
  next
    case False
    then have qs: "qs \<noteq> []" using Cons.prems(3) by auto
    have r0: "0 \<le> r - p" using False by simp
    show ?thesis
    proof (cases w)
      case 0
      with False qs show ?thesis by simp
    next
      case (Suc w')
      have "w' < length qs" "r - p < sum_list qs" using Cons.prems Suc by auto
      from Cons.IH[OF pos this r0] False qs Suc show ?thesis by auto
    qed
  qed
qed

lemma sum_list_divide: "(\<Sum>a\<leftarrow>xs. f a / (c :: real)) = (\<Sum>a\<leftarrow>xs. f a) / c"
  by (induction xs) (simp_all add: add_divide_distrib)

lemma sum_exp_pos:
  assumes "v \<noteq> []"
  shows "0 < (\<Sum>b\<leftarrow>v. exp (b :: real))"
proof -
  obtain a v' where v: "v = a # v'" using assms by (cases v) auto
  have "0 \<le> (\<Sum>b\<leftarrow>v'. exp b)" by (rule sum_list_nonneg) auto
  then show ?thesis unfolding v by (simp add: add_pos_nonneg)
qed

lemma softmax_props:
  assumes "v \<noteq> []"
  shows "length (softmax v) = length v" and "list_all (\<lambda>p. 0 < p) (softmax v)"
    and "sum_list (softmax v) = 1"
proof -
  note s = sum_exp_pos[OF assms]
  show "length (softmax v) = length v" by (simp add: softmax_def)
  show "list_all (\<lambda>p. 0 < p) (softmax v)"
    using s by (simp add: softmax_def list_all_iff)
  show "sum_list (softmax v) = 1"
    using s by (simp add: softmax_def sum_list_divide)
qed

lemma pick_less: "ps \<noteq> [] \<Longrightarrow> pick ps r < length ps"
  by (induction ps arbitrary: r) auto

lemma multinomial_softmax:
  assumes "v \<noteq> []"
  shows "multinomial (softmax v) u < length v"
    and "w < length v \<Longrightarrow> u < 1 \<Longrightarrow> 0 \<le> u \<Longrightarrow>
           (multinomial (softmax v) u = w) =
           (sum_list (take w (softmax v)) \<le> u \<and> u < sum_list (take w (softmax v)) + softmax v ! w)"
    and "w < length v \<Longrightarrow> 0 < softmax v ! w"
proof -
  note p = softmax_props[OF assms]
  have ne: "softmax v \<noteq> []" using p(1) assms by auto
  show "multinomial (softmax v) u < length v"
    using pick_less[OF ne] p(1) by (simp add: multinomial_def)
  show "(multinomial (softmax v) u = w) =
           (sum_list (take w (softmax v)) \<le> u \<and> u < sum_list (take w (softmax v)) + softmax v ! w)"
    if "w < length v" "u < 1" "0 \<le> u"
    using pick_interval[OF p(2), of w u] that p by (simp add: multinomial_def)
  show "0 < softmax v ! w" if "w < length v"
    using p(2) that p(1) by (simp add: list_all_length)
qed


text \<open>
  C3. One iteration of the sampling loop, for a model that returns one row of logits per
  position of the sequence it is given (as the generative model does). The token drawn is
  the multinomial draw from the softmax of the logits at the last position; it is a token
  of the vocabulary; the sequence and the word are extended by it; the loop stops after
  this iteration exactly when the extended word ends with the newline, which for a symbol
  of one character means that the symbol drawn is the newline. The draw is weighted and
  not an arg-max: every token has a positive probability, and the variates that draw
  token \<open>w'\<close> are an interval of that length. Every iteration of the \<^verbatim>\<open>for\<close> loop starts
  its word from the start token alone.
\<close>

theorem sampling_step:
  fixes model :: "nat list list \<Rightarrow> error + real list list list" and u :: real
  assumes m: "model [input] = Inr [logits]"
    and r: "rect logits (length input) (length idx2word)"
    and i: "input \<noteq> []" and v: "idx2word \<noteq> []"
    and w: "word \<noteq> []" "last word \<noteq> newline"
  defines "probs \<equiv> softmax (logits ! (length input - 1))"
  defines "word_id \<equiv> multinomial probs u"
  shows "word_id < length idx2word \<and>
         sample_step model idx2word (input, word) u =
           Inr (input @ [word_id], word @ idx2word ! word_id) \<and>
         sample_loop model idx2word (input, word) (u # us) =
           (if last (word @ idx2word ! word_id) = newline
            then Some (Inr ((input @ [word_id], word @ idx2word ! word_id), us))
            else sample_loop model idx2word (input @ [word_id], word @ idx2word ! word_id) us) \<and>
         (length (idx2word ! word_id) = 1 \<longrightarrow>
            (last (word @ idx2word ! word_id) = newline) = (idx2word ! word_id = [newline])) \<and>
         (\<forall>w' u'. w' < length idx2word \<and> 0 \<le> u' \<and> u' < 1 \<longrightarrow>
            0 < probs ! w' \<and>
            (multinomial probs u' = w') =
              (sum_list (take w' probs) \<le> u' \<and> u' < sum_list (take w' probs) + probs ! w')) \<and>
         sample_for model MolFromSmiles idx2word smi (Suc k) (n, ss) us' =
           (case sample_loop model idx2word ([1], ''&'') us' of
              None \<Rightarrow> None
            | Some (Inl e) \<Rightarrow> Some (Inl e)
            | Some (Inr ((input', word'), us'')) \<Rightarrow>
                (case MolFromSmiles (drop 1 word') of
                   Inl e \<Rightarrow> Some (Inl e)
                 | Inr valid \<Rightarrow>
                     sample_for model MolFromSmiles idx2word smi k
                       (if valid
                        then (n + 1,
                              if drop 1 word' \<notin> set smi \<and> drop 1 word' \<notin> set ss
                              then ss @ [drop 1 word'] else ss)
                        else (n, ss))
                       us''))"
proof -
  have len: "length logits = length input" and rows: "list_all (\<lambda>r. length r = length idx2word) logits"
    using r by (simp_all add: rect_def)
  have lne: "logits \<noteq> []" using len i by auto
  have row: "length (logits ! (length input - 1)) = length idx2word"
    using rows len i by (simp add: list_all_length)
  then have rne: "logits ! (length input - 1) \<noteq> []" using v by auto
  have lst: "last logits = logits ! (length input - 1)"
    using lne len by (simp add: last_conv_nth)
  have vr: "view_rows (length idx2word) [logits] = Inr logits"
    using view_rows_rows[of "length idx2word" "[logits]"] rows v by simp
  have 1: "word_id < length idx2word"
    using multinomial_softmax(1)[OF rne, of u] row by (simp add: word_id_def probs_def)
  have 2: "sample_step model idx2word (input, word) u =
           Inr (input @ [word_id], word @ idx2word ! word_id)"
    using 1 lne by (simp add: sample_step_def m vr lst word_id_def probs_def Let_def)
  have ne': "word @ idx2word ! word_id \<noteq> []" using w by simp
  have 3: "sample_loop model idx2word (input, word) (u # us) =
           (if last (word @ idx2word ! word_id) = newline
            then Some (Inr ((input @ [word_id], word @ idx2word ! word_id), us))
            else sample_loop model idx2word (input @ [word_id], word @ idx2word ! word_id) us)"
  proof -
    have a: "sample_loop model idx2word (input, word) (u # us) =
               sample_loop model idx2word (input @ [word_id], word @ idx2word ! word_id) us"
      using w by (simp add: sample_loop.simps[of _ _ input word] 2)
    show ?thesis
    proof (cases "last (word @ idx2word ! word_id) = newline")
      case True
      then show ?thesis
        unfolding a using ne'
        by (simp add: sample_loop.simps[of _ _ "input @ [word_id]" "word @ idx2word ! word_id"])
    next
      case False
      then show ?thesis unfolding a by simp
    qed
  qed
  have 4: "(last (word @ idx2word ! word_id) = newline) = (idx2word ! word_id = [newline])"
    if "length (idx2word ! word_id) = 1"
  proof -
    from that obtain c where c: "idx2word ! word_id = [c]"
      by (cases "idx2word ! word_id") auto
    show ?thesis unfolding c by simp
  qed
  have 5: "0 < probs ! w' \<and>
            (multinomial probs u' = w') =
              (sum_list (take w' probs) \<le> u' \<and> u' < sum_list (take w' probs) + probs ! w')"
    if "w' < length idx2word \<and> 0 \<le> u' \<and> u' < 1" for w' u'
    using multinomial_softmax(2)[OF rne, of w' u'] multinomial_softmax(3)[OF rne, of w'] that row
    by (simp add: probs_def)
  have 6: "sample_for model MolFromSmiles idx2word smi (Suc k) (n, ss) us' =
           (case sample_loop model idx2word ([1], ''&'') us' of
              None \<Rightarrow> None
            | Some (Inl e) \<Rightarrow> Some (Inl e)
            | Some (Inr ((input', word'), us'')) \<Rightarrow>
                (case MolFromSmiles (drop 1 word') of
                   Inl e \<Rightarrow> Some (Inl e)
                 | Inr valid \<Rightarrow>
                     sample_for model MolFromSmiles idx2word smi k
                       (if valid
                        then (n + 1,
                              if drop 1 word' \<notin> set smi \<and> drop 1 word' \<notin> set ss
                              then ss @ [drop 1 word'] else ss)
                        else (n, ss))
                       us''))"
    by (rule sample_for.simps(2))
  from 1 2 3 4 5 6 show ?thesis by blast
qed

theorem sampling_step_witness:
  "GEN_forward tiny_gen None [[1]] = Inr [[[0, 0, 0]]] \<and>
   rect [[0, 0, 0 :: real]] (length [1 :: nat]) (length tiny_vocab) \<and>
   [1 :: nat] \<noteq> [] \<and> tiny_vocab \<noteq> [] \<and> ''&'' \<noteq> [] \<and> last ''&'' \<noteq> newline \<and>
   multinomial (softmax ([[0, 0, 0]] ! (length [1 :: nat] - 1))) (9 / 10) = 2 \<and>
   sample_step (GEN_forward tiny_gen None) tiny_vocab ([1], ''&'') (9 / 10) =
     Inr ([1] @ [2], ''&'' @ tiny_vocab ! 2) \<and>
   sample_loop (GEN_forward tiny_gen None) tiny_vocab ([1], ''&'') [9 / 10] =
     Some (Inr (([1] @ [2], ''&'' @ tiny_vocab ! 2), []))"
proof -
  have d: "multinomial (softmax ([[0, 0, 0]] ! (length [1 :: nat] - 1))) (9 / 10) = 2"
    by (simp add: tiny_draw)
  have h: "GEN_forward tiny_gen None [[1]] = Inr [[[0, 0, 0]]]"
    "rect [[0, 0, 0 :: real]] (length [1 :: nat]) (length tiny_vocab)"
    "[1 :: nat] \<noteq> []" "tiny_vocab \<noteq> []" "''&'' \<noteq> []" "last ''&'' \<noteq> newline"
    by (simp_all add: tiny_forward rect_def tiny_vocab_def newline_def)
  from sampling_step[where model = "GEN_forward tiny_gen None" and input = "[1]"
      and logits = "[[0, 0, 0]]" and idx2word = tiny_vocab and word = "''&''"
      and u = "9 / 10" and us = "[]", OF h, unfolded d] h d
  show ?thesis
    by (simp add: tiny_vocab_def)
qed

end
